theory Spec2Isabelle
  imports Main
begin

text \<open>
  The package \<open>multichan\<close>: a writer \<open>W\<close> that keeps the written items in a slice
  until the slowest reader has consumed them, and readers \<open>R\<close> that each hold a
  position in the stream.  The definitions follow the implementation with the
  mutex, the condition variable, \<open>trim\<close>, \<open>Dispose\<close> and the context argument of
  \<open>Read\<close>.
\<close>

section \<open>Values and their dynamic types\<close>

text \<open>
  The channel carries \<open>interface{}\<close> values and checks them at run time against
  the type of the zero value given to \<open>New\<close>.  The model carries non-nil values of
  three basic Go types; \<open>reflect.TypeOf\<close> of such a value is its basic type, and
  between basic types \<open>AssignableTo\<close> is identity of types.
\<close>

datatype gtype = TInt | TString | TBool

datatype gval = VInt int | VString string | VBool bool

fun TypeOf :: "gval \<Rightarrow> gtype" where
  "TypeOf (VInt _) = TInt"
| "TypeOf (VString _) = TString"
| "TypeOf (VBool _) = TBool"

definition AssignableTo :: "gtype \<Rightarrow> gtype \<Rightarrow> bool" where
  "AssignableTo t u = (t = u)"

section \<open>Run-time panics\<close>

datatype error =
    TypeMismatch        \<comment> \<open>the explicit \<open>panic\<close> of \<open>Write\<close>\<close>
  | IndexOutOfRange     \<comment> \<open>\<open>xs[i]\<close> with \<open>i\<close> outside \<open>0 .. len(xs)-1\<close>\<close>
  | SliceOutOfRange     \<comment> \<open>\<open>xs[d:]\<close> with \<open>d\<close> outside \<open>0 .. len(xs)\<close>\<close>
  | NilDereference      \<comment> \<open>a method call on a nil interface value\<close>

text \<open>Go's indexing, indexed assignment and slicing, with their bounds checks.\<close>

definition index :: "'a list \<Rightarrow> int \<Rightarrow> error + 'a" where
  "index xs i = (if 0 \<le> i \<and> i < int (length xs) then Inr (xs ! nat i) else Inl IndexOutOfRange)"

definition store :: "'a list \<Rightarrow> int \<Rightarrow> 'a \<Rightarrow> error + 'a list" where
  "store xs i v = (if 0 \<le> i \<and> i < int (length xs) then Inr (xs[nat i := v]) else Inl IndexOutOfRange)"

definition slice_from :: "'a list \<Rightarrow> int \<Rightarrow> error + 'a list" where
  "slice_from xs d = (if 0 \<le> d \<and> d \<le> int (length xs) then Inr (drop (nat d) xs) else Inl SliceOutOfRange)"

section \<open>The writing end and the reading end\<close>

text \<open>
  The fields of \<open>W\<close> other than the mutex and the condition variable.  Every method
  body runs with the mutex held, so each is one atomic transformation of the record.
  Go's \<open>int\<close> is modelled by \<open>int\<close>: positions count the items written so far.
\<close>

record W =
  zero_W :: gval
  zerotype :: gtype
  closed :: bool
  items :: "gval list"
  offset :: int
  readerpos :: "int list"

text \<open>
  A reader holds its index into \<open>readerpos\<close> and its own position.  The pointer to
  its \<open>W\<close> is the \<open>W\<close> argument of the reader's methods.
\<close>

record R =
  id_R :: int
  pos :: int

definition New :: "gval \<Rightarrow> W" where
  "New z = \<lparr>zero_W = z, zerotype = TypeOf z, closed = False, items = [], offset = 0, readerpos = []\<rparr>"

definition streamlen :: "W \<Rightarrow> int" where
  "streamlen w = offset w + int (length (items w))"

definition item :: "W \<Rightarrow> int \<Rightarrow> error + gval" where
  "item w p = index (items w) (p - offset w)"

text \<open>The \<open>range\<close> loop of \<open>trim\<close>, with \<open>min\<close> as the accumulator.\<close>

primrec trim_min :: "int list \<Rightarrow> int \<Rightarrow> int" where
  "trim_min [] m = m"
| "trim_min (p # ps) m = trim_min ps (if p \<ge> 0 \<and> p < m then p else m)"

definition trim :: "W \<Rightarrow> error + W" where
  "trim w =
     (let m = trim_min (readerpos w) (streamlen w);
          delta = m - offset w
      in if delta > 0
         then (case slice_from (items w) delta of
                 Inl e \<Rightarrow> Inl e
               | Inr xs \<Rightarrow> Inr (w\<lparr>items := xs, offset := offset w + delta\<rparr>))
         else Inr w)"

definition Write :: "W \<Rightarrow> gval \<Rightarrow> error + W" where
  "Write w v =
     (if \<not> AssignableTo (TypeOf v) (zerotype w) then Inl TypeMismatch
      else trim (w\<lparr>items := items w @ [v]\<rparr>))"

definition Close :: "W \<Rightarrow> W" where
  "Close w = w\<lparr>closed := True\<rparr>"

definition Reader :: "W \<Rightarrow> R \<times> W" where
  "Reader w =
     (\<lparr>id_R = int (length (readerpos w)), pos = offset w\<rparr>,
      w\<lparr>readerpos := readerpos w @ [0]\<rparr>)"

text \<open>
  \<open>doRead\<close> returns the item, the reader with its position advanced, and the
  channel after the bookkeeping and \<open>trim\<close>.
\<close>

definition doRead :: "R \<Rightarrow> W \<Rightarrow> error + (gval \<times> R \<times> W)" where
  "doRead r w =
     (case item w (pos r) of
        Inl e \<Rightarrow> Inl e
      | Inr result \<Rightarrow>
          (let r' = r\<lparr>pos := pos r + 1\<rparr> in
           case store (readerpos w) (id_R r') (pos r') of
             Inl e \<Rightarrow> Inl e
           | Inr ps \<Rightarrow>
               (case trim (w\<lparr>readerpos := ps\<rparr>) of
                  Inl e \<Rightarrow> Inl e
                | Inr w' \<Rightarrow> Inr (result, r', w'))))"

definition NBRead :: "R \<Rightarrow> W \<Rightarrow> error + ((gval \<times> bool) \<times> R \<times> W)" where
  "NBRead r w =
     (if pos r \<ge> streamlen w then Inr ((zero_W w, False), r, w)
      else (case doRead r w of
              Inl e \<Rightarrow> Inl e
            | Inr (v, r', w') \<Rightarrow> Inr ((v, True), r', w')))"

definition Dispose :: "R \<Rightarrow> W \<Rightarrow> error + W" where
  "Dispose r w =
     (case store (readerpos w) (id_R r) (- 1) of
        Inl e \<Rightarrow> Inl e
      | Inr ps \<Rightarrow> trim (w\<lparr>readerpos := ps\<rparr>))"

subsection \<open>The blocking read\<close>

text \<open>
  A \<open>context.Context\<close> argument is \<open>None\<close> for the nil interface and \<open>Some c\<close> for a
  context whose \<open>Err()\<close> is non-nil exactly when \<open>c\<close> holds (it has been cancelled).
  Calling \<open>Err\<close> on the nil interface is a nil dereference.
\<close>

type_synonym ctx = "bool option"

definition Err :: "ctx \<Rightarrow> error + bool" where
  "Err c = (case c of None \<Rightarrow> Inl NilDereference | Some b \<Rightarrow> Inr b)"

text \<open>
  \<open>Read\<close> waits on the condition variable while its loop condition holds.  Waiting
  releases the mutex; the woken reader takes the mutex again and evaluates the
  condition on the state it then finds.  One evaluation of the method body from the
  loop condition on is one \<^emph>\<open>attempt\<close>: it either \<open>Blocks\<close> (the condition held, the
  state is as it was), panics, or returns.  A call to \<open>Read\<close> is a sequence of
  attempts of which all but the last block.

  The loop condition is \<open>r.pos >= r.w.streamlen() && !r.w.closed && ctx.Err() == nil\<close>:
  \<open>&&\<close> evaluates its right operand only when the left one is true.  An attempt
  sees one state of the context; a context once cancelled stays cancelled, so the
  test after the loop finds it cancelled whenever the loop condition did.  The
  goroutine that \<open>Read\<close> starts for a non-nil context only broadcasts on the
  condition variable when the context is cancelled; it assigns no field.
\<close>

datatype 'a outcome = Blocks | Panics error | Returns 'a

definition loop_cond :: "ctx \<Rightarrow> R \<Rightarrow> W \<Rightarrow> error + bool" where
  "loop_cond c r w =
     (if pos r \<ge> streamlen w
      then (if \<not> closed w
            then (case Err c of Inl e \<Rightarrow> Inl e | Inr b \<Rightarrow> Inr (\<not> b))
            else Inr False)
      else Inr False)"

definition Read :: "ctx \<Rightarrow> R \<Rightarrow> W \<Rightarrow> ((gval \<times> bool) \<times> R \<times> W) outcome" where
  "Read c r w =
     (case loop_cond c r w of
        Inl e \<Rightarrow> Panics e
      | Inr True \<Rightarrow> Blocks
      | Inr False \<Rightarrow>
          (if (case c of None \<Rightarrow> False | Some b \<Rightarrow> b) \<or> pos r \<ge> streamlen w
           then Returns ((zero_W w, False), r, w)
           else (case doRead r w of
                   Inl e \<Rightarrow> Panics e
                 | Inr (v, r', w') \<Rightarrow> Returns ((v, True), r', w'))))"

section \<open>A channel with its readers\<close>

text \<open>
  A program owns one \<open>W\<close> and the readers it obtained from \<open>Reader\<close>, in the order
  of the calls; reader \<open>i\<close> is the one whose \<open>id\<close> is \<open>i\<close>.  A reader is dropped
  (\<open>None\<close>) once \<open>Dispose\<close> has been called on it: the documentation of \<open>Dispose\<close>
  makes any later call on it an error of the caller, so the programs considered here
  make none.  \<open>hist\<close> is not program state: it logs every item that \<open>Write\<close> accepted,
  so that the position of an item in the stream is its index in \<open>hist\<close>.
\<close>

record sys =
  chan :: W
  handles :: "R option list"
  hist :: "gval list"

datatype event =
    EvWrite gval
  | EvClose
  | EvReader
  | EvRead ctx nat        \<comment> \<open>one attempt of \<open>Read\<close> by reader \<open>i\<close>\<close>
  | EvNBRead nat
  | EvDispose nat

datatype obs =
    Done
  | Panicked error
  | Blocked
  | Got nat gval bool     \<comment> \<open>reader \<open>i\<close> was returned the pair \<open>(v, ok)\<close>\<close>

definition init :: "gval \<Rightarrow> sys" where
  "init z = \<lparr>chan = New z, handles = [], hist = []\<rparr>"

definition handle :: "sys \<Rightarrow> nat \<Rightarrow> R option" where
  "handle s i = (if i < length (handles s) then handles s ! i else None)"

text \<open>
  One method call (for \<open>Read\<close>, one attempt).  The result is \<open>None\<close> when the event
  names a reader that does not exist or has been disposed of.  A call that panics
  is observed as such and leaves the state as it was: the panics of \<open>Write\<close> and of
  the loop condition of \<open>Read\<close> happen before any field is assigned, and in a state
  that satisfies the invariant below \<open>doRead\<close> and \<open>Dispose\<close> do not panic
  (\<open>doRead_inv\<close>, \<open>Dispose_inv\<close>).  The run goes on after a panic, as it does for
  a caller that recovers; a program that stops there has fewer runs.
\<close>

fun step :: "event \<Rightarrow> sys \<Rightarrow> (obs \<times> sys) option" where
  "step (EvWrite v) s =
     Some (case Write (chan s) v of
             Inl e \<Rightarrow> (Panicked e, s)
           | Inr w' \<Rightarrow> (Done, s\<lparr>chan := w', hist := hist s @ [v]\<rparr>))"
| "step EvClose s = Some (Done, s\<lparr>chan := Close (chan s)\<rparr>)"
| "step EvReader s =
     (case Reader (chan s) of
        (r, w') \<Rightarrow> Some (Done, s\<lparr>chan := w', handles := handles s @ [Some r]\<rparr>))"
| "step (EvRead c i) s =
     (case handle s i of
        None \<Rightarrow> None
      | Some r \<Rightarrow>
          Some (case Read c r (chan s) of
                  Blocks \<Rightarrow> (Blocked, s)
                | Panics e \<Rightarrow> (Panicked e, s)
                | Returns ((v, ok), r', w') \<Rightarrow>
                    (Got i v ok, s\<lparr>chan := w', handles := (handles s)[i := Some r']\<rparr>)))"
| "step (EvNBRead i) s =
     (case handle s i of
        None \<Rightarrow> None
      | Some r \<Rightarrow>
          Some (case NBRead r (chan s) of
                  Inl e \<Rightarrow> (Panicked e, s)
                | Inr ((v, ok), r', w') \<Rightarrow>
                    (Got i v ok, s\<lparr>chan := w', handles := (handles s)[i := Some r']\<rparr>)))"
| "step (EvDispose i) s =
     (case handle s i of
        None \<Rightarrow> None
      | Some r \<Rightarrow>
          Some (case Dispose r (chan s) of
                  Inl e \<Rightarrow> (Panicked e, s)
                | Inr w' \<Rightarrow> (Done, s\<lparr>chan := w', handles := (handles s)[i := None]\<rparr>)))"

fun run :: "event list \<Rightarrow> sys \<Rightarrow> (obs list \<times> sys) option" where
  "run [] s = Some ([], s)"
| "run (e # es) s =
     (case step e s of
        None \<Rightarrow> None
      | Some (ob, s') \<Rightarrow>
          (case run es s' of
             None \<Rightarrow> None
           | Some (obs, s'') \<Rightarrow> Some (ob # obs, s'')))"

text \<open>The pairs returned to reader \<open>i\<close>, in the order of its calls.\<close>

fun received :: "nat \<Rightarrow> obs list \<Rightarrow> (gval \<times> bool) list" where
  "received i [] = []"
| "received i (Got j v ok # obs) = (if i = j then (v, ok) # received i obs else received i obs)"
| "received i (_ # obs) = received i obs"

subsection \<open>The state invariant\<close>

text \<open>
  Entry \<open>i\<close> of \<open>readerpos\<close> is \<open>-1\<close> for a disposed reader.  For a reader in use it
  is the reader's position, except between \<open>Reader\<close> and the reader's first read,
  when the entry is \<open>0\<close> and the reader stands at \<open>offset\<close>.
\<close>

definition reader_ok :: "W \<Rightarrow> nat \<Rightarrow> R option \<Rightarrow> bool" where
  "reader_ok w i h =
     (case h of
        None \<Rightarrow> readerpos w ! i = - 1
      | Some r \<Rightarrow>
          id_R r = int i \<and> offset w \<le> pos r \<and> pos r \<le> streamlen w \<and>
          (readerpos w ! i = pos r \<or> (readerpos w ! i = 0 \<and> pos r = offset w)))"

definition inv :: "sys \<Rightarrow> bool" where
  "inv s =
     (length (handles s) = length (readerpos (chan s)) \<and>
      0 \<le> offset (chan s) \<and>
      streamlen (chan s) = int (length (hist s)) \<and>
      items (chan s) = drop (nat (offset (chan s))) (hist s) \<and>
      trim_min (readerpos (chan s)) (streamlen (chan s)) \<le> offset (chan s) \<and>
      (\<forall>i < length (handles s). reader_ok (chan s) i (handles s ! i)))"

subsection \<open>Auxiliary notions\<close>

text \<open>
  The channel that \<open>trim\<close> returns, in closed form: \<open>offset\<close> becomes the larger of
  itself and the minimum that the loop computes, and \<open>items\<close> loses the difference.
\<close>

definition trimmed :: "W \<Rightarrow> W" where
  "trimmed w =
     (let m = max (offset w) (trim_min (readerpos w) (streamlen w))
      in w\<lparr>items := drop (nat (m - offset w)) (items w), offset := m\<rparr>)"

text \<open>The invariant without its clause on \<open>trim\<close>: it holds between the assignments of a
  method and the call of \<open>trim\<close> that ends it.\<close>

definition wf :: "sys \<Rightarrow> bool" where
  "wf s =
     (length (handles s) = length (readerpos (chan s)) \<and>
      0 \<le> offset (chan s) \<and>
      streamlen (chan s) = int (length (hist s)) \<and>
      items (chan s) = drop (nat (offset (chan s))) (hist s) \<and>
      (\<forall>i < length (handles s). reader_ok (chan s) i (handles s ! i)))"

text \<open>
  The invariant on \<open>base\<close> in the words of the specification: \<open>base\<close> never exceeds
  the minimum \<open>cursors\<close> entry among the consumers that are not detached, and never
  exceeds the end of the sequence.
\<close>

definition base_le_cursors :: "W \<Rightarrow> bool" where
  "base_le_cursors w =
     ((\<forall>p \<in> set (readerpos w). 0 \<le> p \<longrightarrow> offset w \<le> p) \<and> offset w \<le> streamlen w)"


text \<open>
  Notions of the specification.  The item at position \<open>p\<close> of the stream is retained
  when it is still in \<open>items\<close>.  The minimum cursor of the active consumers is read
  both ways: over the entries of \<open>readerpos\<close> that are not \<open>-1\<close>, and over the
  positions that the readers in use hold themselves; in both it is the end of the
  stream when there is no active consumer.
\<close>

definition retained :: "W \<Rightarrow> int \<Rightarrow> bool" where
  "retained w p = (offset w \<le> p \<and> p < streamlen w)"

definition active_entries :: "W \<Rightarrow> int list" where
  "active_entries w = filter (\<lambda>p. 0 \<le> p) (readerpos w)"

definition min_cursor :: "W \<Rightarrow> int" where
  "min_cursor w = (if active_entries w = [] then streamlen w else Min (set (active_entries w)))"

definition active_readers :: "sys \<Rightarrow> R list" where
  "active_readers s = map the (filter (\<lambda>h. h \<noteq> None) (handles s))"

definition min_position :: "sys \<Rightarrow> int" where
  "min_position s =
     (if active_readers s = [] then streamlen (chan s) else Min (set (map pos (active_readers s))))"

text \<open>
  The state after reader \<open>i\<close>, holding \<open>r\<close>, has taken the item at its position:
  the position and the entry of \<open>readerpos\<close> are one further, and \<open>trim\<close> has run.
\<close>

definition advance :: "nat \<Rightarrow> R \<Rightarrow> sys \<Rightarrow> sys" where
  "advance i r s =
     s\<lparr>chan := trimmed ((chan s)\<lparr>readerpos := (readerpos (chan s))[i := pos r + 1]\<rparr>),
       handles := (handles s)[i := Some (r\<lparr>pos := pos r + 1\<rparr>)]\<rparr>"

text \<open>
  The calls that read for reader \<open>i\<close> without a cancelled context: \<open>NBRead\<close>, and
  \<open>Read\<close> with the nil context or with a context that is not cancelled.
\<close>

definition is_read_of :: "nat \<Rightarrow> event \<Rightarrow> bool" where
  "is_read_of i e = (e = EvNBRead i \<or> e = EvRead None i \<or> e = EvRead (Some False) i)"

text \<open>The items that reader \<open>i\<close> was returned with \<open>true\<close>, in the order of its calls.\<close>

definition delivered :: "nat \<Rightarrow> obs list \<Rightarrow> gval list" where
  "delivered i obs = map fst (filter snd (received i obs))"

text \<open>The calls of the writing end that make the stream: \<open>Write\<close> and \<open>Close\<close>.\<close>

fun is_writer :: "event \<Rightarrow> bool" where
  "is_writer (EvWrite _) = True"
| "is_writer EvClose = True"
| "is_writer _ = False"


section \<open>Facts about \<open>trim\<close> and the invariant\<close>

lemma trim_min_le: "trim_min ps m \<le> m"
proof (induction ps arbitrary: m)
  case Nil
  then show ?case by simp
next
  case (Cons q ps)
  show ?case
  proof (cases "q \<ge> 0 \<and> q < m")
    case True
    moreover have "trim_min ps q \<le> q" by (rule Cons.IH)
    ultimately show ?thesis by simp
  next
    case False
    moreover have "trim_min ps m \<le> m" by (rule Cons.IH)
    ultimately show ?thesis by auto
  qed
qed

lemma trim_min_le_active: "p \<in> set ps \<Longrightarrow> 0 \<le> p \<Longrightarrow> trim_min ps m \<le> p"
proof (induction ps arbitrary: m)
  case Nil
  then show ?case by simp
next
  case (Cons q ps)
  show ?case
  proof (cases "p = q")
    case True
    have "trim_min ps (if q \<ge> 0 \<and> q < m then q else m) \<le> (if q \<ge> 0 \<and> q < m then q else m)"
      by (rule trim_min_le)
    with True Cons.prems show ?thesis by (auto split: if_splits)
  next
    case False
    with Cons show ?thesis by auto
  qed
qed

lemma trim_min_cases: "trim_min ps m = m \<or> (trim_min ps m \<in> set ps \<and> 0 \<le> trim_min ps m)"
proof (induction ps arbitrary: m)
  case Nil
  then show ?case by simp
next
  case (Cons q ps)
  from Cons.IH [of "if q \<ge> 0 \<and> q < m then q else m"]
  show ?case by (auto split: if_splits)
qed

lemma trim_min_append: "trim_min (ps @ qs) m = trim_min qs (trim_min ps m)"
  by (induction ps arbitrary: m) auto

lemma trim_eq: "trim w = Inr (trimmed w)"
proof -
  have "trim_min (readerpos w) (streamlen w) \<le> streamlen w" by (rule trim_min_le)
  then show ?thesis
    by (auto simp: trim_def trimmed_def Let_def slice_from_def streamlen_def max_def)
qed

lemma trimmed_simps [simp]:
  "zero_W (trimmed w) = zero_W w"
  "zerotype (trimmed w) = zerotype w"
  "closed (trimmed w) = closed w"
  "readerpos (trimmed w) = readerpos w"
  "offset (trimmed w) = max (offset w) (trim_min (readerpos w) (streamlen w))"
  "items (trimmed w) = drop (nat (max (offset w) (trim_min (readerpos w) (streamlen w)) - offset w)) (items w)"
  by (simp_all add: trimmed_def Let_def)

lemma streamlen_trimmed [simp]: "streamlen (trimmed w) = streamlen w"
proof -
  have "trim_min (readerpos w) (streamlen w) \<le> streamlen w" by (rule trim_min_le)
  then show ?thesis
    by (auto simp: streamlen_def max_def)
qed

lemma inv_wf: "inv s = (wf s \<and> trim_min (readerpos (chan s)) (streamlen (chan s)) \<le> offset (chan s))"
  by (auto simp: inv_def wf_def)

lemma reader_ok_trimmed:
  assumes ok: "reader_ok w i h" and i: "i < length (readerpos w)" and o: "0 \<le> offset w"
  shows "reader_ok (trimmed w) i h"
proof (cases h)
  case None
  with ok show ?thesis by (simp add: reader_ok_def)
next
  case (Some r)
  let ?m = "trim_min (readerpos w) (streamlen w)"
  from ok Some have r: "id_R r = int i" "offset w \<le> pos r" "pos r \<le> streamlen w"
    and d: "readerpos w ! i = pos r \<or> (readerpos w ! i = 0 \<and> pos r = offset w)"
    by (simp_all add: reader_ok_def)
  from d r o have nn: "0 \<le> readerpos w ! i" and le: "readerpos w ! i \<le> pos r" by auto
  from i have "readerpos w ! i \<in> set (readerpos w)" by simp
  then have m: "?m \<le> readerpos w ! i" using nn by (rule trim_min_le_active)
  from d show ?thesis
  proof
    assume "readerpos w ! i = pos r"
    with m r Some show ?thesis by (simp add: reader_ok_def)
  next
    assume f: "readerpos w ! i = 0 \<and> pos r = offset w"
    with m o have "max (offset w) ?m = offset w" by simp
    with f r Some show ?thesis by (simp add: reader_ok_def)
  qed
qed

lemma inv_trimmed:
  assumes "wf s" and c: "chan s' = trimmed (chan s)"
    and hd: "handles s' = handles s" and hs: "hist s' = hist s"
  shows "inv s'"
proof -
  let ?w = "chan s"
  let ?m = "trim_min (readerpos ?w) (streamlen ?w)"
  from assms(1) have len: "length (handles s) = length (readerpos ?w)" and o: "0 \<le> offset ?w"
    and sl: "streamlen ?w = int (length (hist s))"
    and it: "items ?w = drop (nat (offset ?w)) (hist s)"
    and rd: "\<forall>i < length (handles s). reader_ok ?w i (handles s ! i)"
    unfolding wf_def by blast+
  have "nat (max (offset ?w) ?m - offset ?w) + nat (offset ?w) = nat (max (offset ?w) ?m)"
    using o by simp
  with it have it': "items (trimmed ?w) = drop (nat (offset (trimmed ?w))) (hist s)"
    by simp
  have rd': "\<forall>i < length (handles s). reader_ok (trimmed ?w) i (handles s ! i)"
    using rd len o by (auto intro: reader_ok_trimmed)
  have o': "0 \<le> offset (trimmed ?w)" using o by simp
  have t': "trim_min (readerpos (trimmed ?w)) (streamlen (trimmed ?w)) \<le> offset (trimmed ?w)"
    by simp
  have sl': "streamlen (trimmed ?w) = int (length (hist s))" using sl by simp
  have len': "length (handles s) = length (readerpos (trimmed ?w))" using len by simp
  from len' o' sl' it' t' rd' show ?thesis
    unfolding inv_def c hd hs by blast
qed

lemma Write_eq:
  "Write w v = (if TypeOf v = zerotype w then Inr (trimmed (w\<lparr>items := items w @ [v]\<rparr>)) else Inl TypeMismatch)"
  by (simp add: Write_def AssignableTo_def trim_eq)

lemma doRead_eq:
  assumes "offset w \<le> pos r" "pos r < streamlen w" "0 \<le> id_R r" "id_R r < int (length (readerpos w))"
  shows "doRead r w =
    Inr (items w ! nat (pos r - offset w), r\<lparr>pos := pos r + 1\<rparr>,
         trimmed (w\<lparr>readerpos := (readerpos w)[nat (id_R r) := pos r + 1]\<rparr>))"
  using assms by (simp add: doRead_def item_def index_def store_def trim_eq streamlen_def Let_def)

lemma Dispose_eq:
  assumes "0 \<le> id_R r" "id_R r < int (length (readerpos w))"
  shows "Dispose r w = Inr (trimmed (w\<lparr>readerpos := (readerpos w)[nat (id_R r) := - 1]\<rparr>))"
  using assms by (simp add: Dispose_def store_def trim_eq)

lemma handle_SomeD:
  "handle s i = Some r \<Longrightarrow> i < length (handles s) \<and> handles s ! i = Some r"
  by (simp add: handle_def split: if_splits)

lemma inv_handle:
  assumes "inv s" "handle s i = Some r"
  shows "i < length (readerpos (chan s))" "id_R r = int i" "offset (chan s) \<le> pos r"
    "pos r \<le> streamlen (chan s)"
    "readerpos (chan s) ! i = pos r \<or> (readerpos (chan s) ! i = 0 \<and> pos r = offset (chan s))"
proof -
  from assms(2) have i: "i < length (handles s)" and h: "handles s ! i = Some r"
    by (simp_all add: handle_SomeD)
  from assms(1) i have "reader_ok (chan s) i (handles s ! i)" by (simp add: inv_def)
  with h show "id_R r = int i" "offset (chan s) \<le> pos r" "pos r \<le> streamlen (chan s)"
    "readerpos (chan s) ! i = pos r \<or> (readerpos (chan s) ! i = 0 \<and> pos r = offset (chan s))"
    by (simp_all add: reader_ok_def)
  from assms(1) i show "i < length (readerpos (chan s))" by (simp add: inv_def)
qed

lemma reader_ok_other:
  assumes "reader_ok w j h" "j \<noteq> i"
  shows "reader_ok (w\<lparr>readerpos := (readerpos w)[i := p]\<rparr>) j h"
  using assms by (simp add: reader_ok_def streamlen_def split: option.splits)

lemma wfD:
  assumes "wf s"
  shows "length (handles s) = length (readerpos (chan s))"
    and "0 \<le> offset (chan s)"
    and "streamlen (chan s) = int (length (hist s))"
    and "items (chan s) = drop (nat (offset (chan s))) (hist s)"
    and "i < length (handles s) \<Longrightarrow> reader_ok (chan s) i (handles s ! i)"
    and "offset (chan s) \<le> int (length (hist s))"
proof -
  from assms show "length (handles s) = length (readerpos (chan s))"
    "0 \<le> offset (chan s)" "items (chan s) = drop (nat (offset (chan s))) (hist s)"
    unfolding wf_def by blast+
  from assms show sl: "streamlen (chan s) = int (length (hist s))"
    unfolding wf_def by blast
  from assms show "i < length (handles s) \<Longrightarrow> reader_ok (chan s) i (handles s ! i)"
    unfolding wf_def by blast
  have "offset (chan s) \<le> streamlen (chan s)" unfolding streamlen_def by simp
  with sl show "offset (chan s) \<le> int (length (hist s))" by simp
qed

lemma wfI:
  assumes "length (handles s) = length (readerpos (chan s))"
    and "0 \<le> offset (chan s)"
    and "streamlen (chan s) = int (length (hist s))"
    and "items (chan s) = drop (nat (offset (chan s))) (hist s)"
    and "\<And>i. i < length (handles s) \<Longrightarrow> reader_ok (chan s) i (handles s ! i)"
  shows "wf s"
  using assms unfolding wf_def by blast

lemma streamlen_readerpos_upd [simp]: "streamlen (w\<lparr>readerpos := ps\<rparr>) = streamlen w"
  by (simp add: streamlen_def)

lemma streamlen_closed_upd [simp]: "streamlen (w\<lparr>closed := b\<rparr>) = streamlen w"
  by (simp add: streamlen_def)

lemma streamlen_items_snoc [simp]: "streamlen (w\<lparr>items := items w @ [v]\<rparr>) = streamlen w + 1"
  by (simp add: streamlen_def)

lemma wf_advance:
  assumes "inv s" "handle s i = Some r" "pos r < streamlen (chan s)"
  shows "wf (s\<lparr>handles := (handles s)[i := Some (r\<lparr>pos := pos r + 1\<rparr>)],
              chan := (chan s)\<lparr>readerpos := (readerpos (chan s))[i := pos r + 1]\<rparr>\<rparr>)"
proof (rule wfI)
  note h = inv_handle [OF assms(1,2)]
  from assms(1) have w: "wf s" by (simp add: inv_wf)
  note d = wfD [OF w]
  let ?s = "s\<lparr>handles := (handles s)[i := Some (r\<lparr>pos := pos r + 1\<rparr>)],
              chan := (chan s)\<lparr>readerpos := (readerpos (chan s))[i := pos r + 1]\<rparr>\<rparr>"
  show "length (handles ?s) = length (readerpos (chan ?s))" using d(1) by simp
  show "0 \<le> offset (chan ?s)" using d(2) by simp
  show "streamlen (chan ?s) = int (length (hist ?s))" using d(3) by simp
  show "items (chan ?s) = drop (nat (offset (chan ?s))) (hist ?s)" using d(4) by simp
  show "reader_ok (chan ?s) j (handles ?s ! j)" if j: "j < length (handles ?s)" for j
  proof (cases "j = i")
    case True
    with h assms(3) j show ?thesis by (simp add: reader_ok_def)
  next
    case False
    from j have "reader_ok (chan s) j (handles s ! j)" by (simp add: d(5))
    with False show ?thesis by (simp add: reader_ok_other)
  qed
qed

lemma wf_dispose:
  assumes "inv s" "handle s i = Some r"
  shows "wf (s\<lparr>handles := (handles s)[i := None],
              chan := (chan s)\<lparr>readerpos := (readerpos (chan s))[i := - 1]\<rparr>\<rparr>)"
proof (rule wfI)
  note h = inv_handle [OF assms(1,2)]
  from assms(1) have w: "wf s" by (simp add: inv_wf)
  note d = wfD [OF w]
  let ?s = "s\<lparr>handles := (handles s)[i := None],
              chan := (chan s)\<lparr>readerpos := (readerpos (chan s))[i := - 1]\<rparr>\<rparr>"
  show "length (handles ?s) = length (readerpos (chan ?s))" using d(1) by simp
  show "0 \<le> offset (chan ?s)" using d(2) by simp
  show "streamlen (chan ?s) = int (length (hist ?s))" using d(3) by simp
  show "items (chan ?s) = drop (nat (offset (chan ?s))) (hist ?s)" using d(4) by simp
  show "reader_ok (chan ?s) j (handles ?s ! j)" if j: "j < length (handles ?s)" for j
  proof (cases "j = i")
    case True
    with h j show ?thesis by (simp add: reader_ok_def)
  next
    case False
    from j have "reader_ok (chan s) j (handles s ! j)" by (simp add: d(5))
    with False show ?thesis by (simp add: reader_ok_other)
  qed
qed

lemma reader_ok_snoc:
  assumes "reader_ok w j h"
  shows "reader_ok (w\<lparr>items := items w @ [v]\<rparr>) j h"
  using assms by (auto simp: reader_ok_def split: option.splits)

lemma wf_write:
  assumes "inv s"
  shows "wf (s\<lparr>hist := hist s @ [v], chan := (chan s)\<lparr>items := items (chan s) @ [v]\<rparr>\<rparr>)"
proof (rule wfI)
  from assms have w: "wf s" by (simp add: inv_wf)
  note d = wfD [OF w]
  let ?s = "s\<lparr>hist := hist s @ [v], chan := (chan s)\<lparr>items := items (chan s) @ [v]\<rparr>\<rparr>"
  show "length (handles ?s) = length (readerpos (chan ?s))" using d(1) by simp
  show "0 \<le> offset (chan ?s)" using d(2) by simp
  show "streamlen (chan ?s) = int (length (hist ?s))" using d(3) by simp
  from d(2,6) have "nat (offset (chan s)) \<le> length (hist s)" by simp
  then show "items (chan ?s) = drop (nat (offset (chan ?s))) (hist ?s)" using d(4) by simp
  show "reader_ok (chan ?s) j (handles ?s ! j)" if j: "j < length (handles ?s)" for j
    using j d(5) [of j] by (simp add: reader_ok_snoc)
qed

lemma wf_reader:
  assumes "inv s"
  shows "wf (s\<lparr>handles := handles s @ [Some \<lparr>id_R = int (length (readerpos (chan s))), pos = offset (chan s)\<rparr>],
              chan := (chan s)\<lparr>readerpos := readerpos (chan s) @ [0]\<rparr>\<rparr>)"
proof (rule wfI)
  from assms have w: "wf s" by (simp add: inv_wf)
  note d = wfD [OF w]
  let ?s = "s\<lparr>handles := handles s @ [Some \<lparr>id_R = int (length (readerpos (chan s))), pos = offset (chan s)\<rparr>],
              chan := (chan s)\<lparr>readerpos := readerpos (chan s) @ [0]\<rparr>\<rparr>"
  show "length (handles ?s) = length (readerpos (chan ?s))" using d(1) by simp
  show "0 \<le> offset (chan ?s)" using d(2) by simp
  show "streamlen (chan ?s) = int (length (hist ?s))" using d(3) by simp
  show "items (chan ?s) = drop (nat (offset (chan ?s))) (hist ?s)" using d(4) by simp
  show "reader_ok (chan ?s) j (handles ?s ! j)" if j: "j < length (handles ?s)" for j
  proof (cases "j < length (handles s)")
    case True
    with d(5) [of j] d(1) show ?thesis
      by (auto simp: reader_ok_def nth_append streamlen_def split: option.splits)
  next
    case False
    with j have "j = length (handles s)" by simp
    with d(1,2,6) d(3) show ?thesis
      by (simp add: reader_ok_def nth_append)
  qed
qed

lemma inv_init: "inv (init z)"
  by (simp add: inv_def init_def New_def streamlen_def)

lemma inv_Write:
  assumes "inv s" "TypeOf v = zerotype (chan s)"
  shows "inv (s\<lparr>chan := trimmed ((chan s)\<lparr>items := items (chan s) @ [v]\<rparr>), hist := hist s @ [v]\<rparr>)"
  by (rule inv_trimmed [OF wf_write [OF assms(1), of v]]) simp_all

lemma inv_Close:
  assumes "inv s"
  shows "inv (s\<lparr>chan := Close (chan s)\<rparr>)"
proof -
  from assms have w: "wf s"
    and t: "trim_min (readerpos (chan s)) (streamlen (chan s)) \<le> offset (chan s)"
    by (simp_all add: inv_wf)
  note d = wfD [OF w]
  have "wf (s\<lparr>chan := Close (chan s)\<rparr>)"
  proof (rule wfI)
    let ?s = "s\<lparr>chan := Close (chan s)\<rparr>"
    show "length (handles ?s) = length (readerpos (chan ?s))" using d(1) by (simp add: Close_def)
    show "0 \<le> offset (chan ?s)" using d(2) by (simp add: Close_def)
    show "streamlen (chan ?s) = int (length (hist ?s))" using d(3) by (simp add: Close_def)
    show "items (chan ?s) = drop (nat (offset (chan ?s))) (hist ?s)" using d(4) by (simp add: Close_def)
    show "reader_ok (chan ?s) j (handles ?s ! j)" if j: "j < length (handles ?s)" for j
      using j d(5) [of j] by (auto simp: reader_ok_def Close_def split: option.splits)
  qed
  moreover have "trim_min (readerpos (Close (chan s))) (streamlen (Close (chan s))) \<le> offset (Close (chan s))"
    using t by (simp add: Close_def)
  ultimately show ?thesis by (simp add: inv_wf)
qed

lemma inv_Reader:
  assumes "inv s"
  shows "inv (s\<lparr>chan := snd (Reader (chan s)), handles := handles s @ [Some (fst (Reader (chan s)))]\<rparr>)"
proof -
  let ?m = "trim_min (readerpos (chan s)) (streamlen (chan s))"
  let ?s0 = "s\<lparr>handles := handles s @ [Some \<lparr>id_R = int (length (readerpos (chan s))), pos = offset (chan s)\<rparr>],
              chan := (chan s)\<lparr>readerpos := readerpos (chan s) @ [0]\<rparr>\<rparr>"
  let ?s1 = "s\<lparr>chan := snd (Reader (chan s)), handles := handles s @ [Some (fst (Reader (chan s)))]\<rparr>"
  from assms have "?m \<le> offset (chan s)" "0 \<le> offset (chan s)" by (simp_all add: inv_wf wfD(2))
  then have "trim_min (readerpos (chan s) @ [0]) (streamlen (chan s)) \<le> offset (chan s)"
    by (simp add: trim_min_append)
  with wf_reader [OF assms] have "inv ?s0"
    by (simp add: inv_wf)
  moreover have "?s1 = ?s0" by (simp add: Reader_def)
  ultimately show ?thesis by simp
qed

lemma inv_advance:
  assumes "inv s" "handle s i = Some r" "pos r < streamlen (chan s)"
  shows "inv (s\<lparr>chan := trimmed ((chan s)\<lparr>readerpos := (readerpos (chan s))[i := pos r + 1]\<rparr>),
               handles := (handles s)[i := Some (r\<lparr>pos := pos r + 1\<rparr>)]\<rparr>)"
  by (rule inv_trimmed [OF wf_advance [OF assms]]) simp_all

lemma inv_Dispose:
  assumes "inv s" "handle s i = Some r"
  shows "inv (s\<lparr>chan := trimmed ((chan s)\<lparr>readerpos := (readerpos (chan s))[i := - 1]\<rparr>),
               handles := (handles s)[i := None]\<rparr>)"
  by (rule inv_trimmed [OF wf_dispose [OF assms]]) simp_all

text \<open>What the reader's methods do in a state that satisfies the invariant.\<close>

lemma doRead_inv:
  assumes "inv s" "handle s i = Some r" "pos r < streamlen (chan s)"
  shows "doRead r (chan s) =
    Inr (hist s ! nat (pos r), r\<lparr>pos := pos r + 1\<rparr>,
         trimmed ((chan s)\<lparr>readerpos := (readerpos (chan s))[i := pos r + 1]\<rparr>))"
proof -
  note h = inv_handle [OF assms(1,2)]
  from assms(1) have w: "wf s" by (simp add: inv_wf)
  note d = wfD [OF w]
  from h(3) d(2) have "nat (offset (chan s)) + nat (pos r - offset (chan s)) = nat (pos r)"
    by simp
  moreover from assms(3) d(3) h(3) d(2) have "nat (pos r) < length (hist s)" by simp
  ultimately have "items (chan s) ! nat (pos r - offset (chan s)) = hist s ! nat (pos r)"
    using d(4) by simp
  with doRead_eq [of "chan s" r] h assms(3) show ?thesis by simp
qed

lemma NBRead_inv:
  assumes "inv s" "handle s i = Some r"
  shows "NBRead r (chan s) =
    (if pos r \<ge> streamlen (chan s) then Inr ((zero_W (chan s), False), r, chan s)
     else Inr ((hist s ! nat (pos r), True), r\<lparr>pos := pos r + 1\<rparr>,
               trimmed ((chan s)\<lparr>readerpos := (readerpos (chan s))[i := pos r + 1]\<rparr>)))"
  using doRead_inv [OF assms] by (simp add: NBRead_def)

lemma Read_inv:
  assumes "inv s" "handle s i = Some r"
  shows "Read c r (chan s) =
    (if pos r \<ge> streamlen (chan s) \<and> \<not> closed (chan s) then
       (case c of None \<Rightarrow> Panics NilDereference
        | Some b \<Rightarrow> if b then Returns ((zero_W (chan s), False), r, chan s) else Blocks)
     else if c = Some True \<or> pos r \<ge> streamlen (chan s)
       then Returns ((zero_W (chan s), False), r, chan s)
     else Returns ((hist s ! nat (pos r), True), r\<lparr>pos := pos r + 1\<rparr>,
               trimmed ((chan s)\<lparr>readerpos := (readerpos (chan s))[i := pos r + 1]\<rparr>)))"
  using doRead_inv [OF assms]
  by (auto simp: Read_def loop_cond_def Err_def split: option.splits)

lemma Dispose_inv:
  assumes "inv s" "handle s i = Some r"
  shows "Dispose r (chan s) = Inr (trimmed ((chan s)\<lparr>readerpos := (readerpos (chan s))[i := - 1]\<rparr>))"
  using inv_handle [OF assms] Dispose_eq [of r "chan s"] by simp

lemma handles_update_same:
  "handle s i = Some r \<Longrightarrow> s\<lparr>chan := chan s, handles := (handles s)[i := Some r]\<rparr> = s"
  by (simp add: handle_def list_update_same_conv split: if_splits)

lemma inv_step:
  assumes "inv s" "step e s = Some (ob, s')"
  shows "inv s'"
proof (cases e)
  case (EvWrite v)
  with assms inv_Write [OF assms(1), of v] show ?thesis
    by (auto simp: Write_eq split: if_splits)
next
  case EvClose
  with assms inv_Close [OF assms(1)] show ?thesis by auto
next
  case EvReader
  with assms inv_Reader [OF assms(1)] show ?thesis
    by (auto split: prod.splits)
next
  case (EvRead c i)
  with assms(2) obtain r where r: "handle s i = Some r"
    by (auto split: option.splits)
  from EvRead assms r inv_advance [OF assms(1) r] handles_update_same [OF r] show ?thesis
    by (auto simp: Read_inv [OF assms(1) r] split: if_splits option.splits)
next
  case (EvNBRead i)
  with assms(2) obtain r where r: "handle s i = Some r"
    by (auto split: option.splits)
  from EvNBRead assms r inv_advance [OF assms(1) r] handles_update_same [OF r] show ?thesis
    by (auto simp: NBRead_inv [OF assms(1) r] split: if_splits)
next
  case (EvDispose i)
  with assms(2) obtain r where r: "handle s i = Some r"
    by (auto split: option.splits)
  from EvDispose assms r inv_Dispose [OF assms(1) r] show ?thesis
    by (auto simp: Dispose_inv [OF assms(1) r])
qed

lemma inv_run:
  assumes "inv s" "run es s = Some (obs, s')"
  shows "inv s'"
  using assms
proof (induction es arbitrary: s obs)
  case Nil
  then show ?case by simp
next
  case (Cons e es)
  from Cons.prems(2) obtain ob s1 obs1 where
    st: "step e s = Some (ob, s1)" and rn: "run es s1 = Some (obs1, s')"
    by (auto split: option.splits prod.splits)
  from Cons.prems(1) st have "inv s1" by (rule inv_step)
  then show ?case using rn by (rule Cons.IH)
qed

lemma inv_reachable: "run es (init z) = Some (obs, s) \<Longrightarrow> inv s"
  using inv_init by (rule inv_run)

lemma active_readers_iff: "r \<in> set (active_readers s) \<longleftrightarrow> (\<exists>i. handle s i = Some r)"
proof -
  have "r \<in> set (active_readers s) \<longleftrightarrow> Some r \<in> set (handles s)"
    by (force simp: active_readers_def)
  also have "\<dots> \<longleftrightarrow> (\<exists>i. handle s i = Some r)"
    by (auto simp: handle_def in_set_conv_nth)
  finally show ?thesis .
qed

lemma tight_entry:
  assumes "trim_min (readerpos w) (streamlen w) \<le> offset w"
  shows "streamlen w \<le> offset w \<or> (\<exists>e \<in> set (active_entries w). e \<le> offset w)"
  using assms trim_min_cases [of "readerpos w" "streamlen w"]
  by (auto simp: active_entries_def)

lemma tight_reader:
  assumes "inv s"
  shows "streamlen (chan s) \<le> offset (chan s) \<or> (\<exists>r \<in> set (active_readers s). pos r \<le> offset (chan s))"
proof -
  let ?w = "chan s"
  from assms have t: "trim_min (readerpos ?w) (streamlen ?w) \<le> offset ?w"
    and w: "wf s" by (simp_all add: inv_wf)
  note d = wfD [OF w]
  from trim_min_cases [of "readerpos ?w" "streamlen ?w"] show ?thesis
  proof
    assume "trim_min (readerpos ?w) (streamlen ?w) = streamlen ?w"
    with t show ?thesis by simp
  next
    assume a: "trim_min (readerpos ?w) (streamlen ?w) \<in> set (readerpos ?w) \<and>
      0 \<le> trim_min (readerpos ?w) (streamlen ?w)"
    then obtain i where i: "i < length (readerpos ?w)"
      and e: "readerpos ?w ! i = trim_min (readerpos ?w) (streamlen ?w)"
      by (auto simp: in_set_conv_nth)
    from i d(1) have il: "i < length (handles s)" by simp
    from d(5) [OF il] have ok: "reader_ok ?w i (handles s ! i)" .
    from a e have nn: "0 \<le> readerpos ?w ! i" by simp
    from ok nn obtain r where r: "handles s ! i = Some r"
      by (cases "handles s ! i") (auto simp: reader_ok_def)
    with il have h: "handle s i = Some r" by (simp add: handle_def)
    from ok r have "readerpos ?w ! i = pos r \<or> (readerpos ?w ! i = 0 \<and> pos r = offset ?w)"
      by (simp add: reader_ok_def)
    with e t have "pos r \<le> offset ?w" by auto
    moreover from h have "r \<in> set (active_readers s)" by (auto simp: active_readers_iff)
    ultimately show ?thesis by blast
  qed
qed

lemma min_cursor_le:
  assumes "inv s"
  shows "min_cursor (chan s) \<le> offset (chan s)"
proof -
  let ?w = "chan s"
  from assms have t: "trim_min (readerpos ?w) (streamlen ?w) \<le> offset ?w"
    and w: "wf s" by (simp_all add: inv_wf)
  note d = wfD [OF w]
  show ?thesis
  proof (cases "active_entries ?w = []")
    case True
    with tight_entry [OF t] show ?thesis by (simp add: min_cursor_def)
  next
    case False
    have fin: "finite (set (active_entries ?w))" by simp
    from False have ne: "set (active_entries ?w) \<noteq> {}" by simp
    from tight_entry [OF t] show ?thesis
    proof
      assume "\<exists>e \<in> set (active_entries ?w). e \<le> offset ?w"
      then obtain e where "e \<in> set (active_entries ?w)" "e \<le> offset ?w" by blast
      with fin have "Min (set (active_entries ?w)) \<le> offset ?w"
        by (meson Min_le order_trans)
      with False show ?thesis by (simp add: min_cursor_def)
    next
      assume sl: "streamlen ?w \<le> offset ?w"
      from False obtain e where e: "e \<in> set (active_entries ?w)"
        by (cases "active_entries ?w") auto
      then obtain i where i: "i < length (readerpos ?w)" and ei: "readerpos ?w ! i = e" and nn: "0 \<le> e"
        by (auto simp: active_entries_def in_set_conv_nth)
      from i d(1) have il: "i < length (handles s)" by simp
      from d(5) [OF il] ei nn d(2) have "e \<le> streamlen ?w"
        by (cases "handles s ! i") (auto simp: reader_ok_def streamlen_def)
      with sl have "e \<le> offset ?w" by simp
      with e fin have "Min (set (active_entries ?w)) \<le> offset ?w"
        by (meson Min_le order_trans)
      with False show ?thesis by (simp add: min_cursor_def)
    qed
  qed
qed

lemma min_position_le:
  assumes "inv s"
  shows "min_position s \<le> offset (chan s)"
proof (cases "active_readers s = []")
  case True
  with tight_reader [OF assms] show ?thesis by (simp add: min_position_def)
next
  case False
  let ?w = "chan s"
  have fin: "finite (set (map pos (active_readers s)))" by simp
  from False obtain r0 where r0: "r0 \<in> set (active_readers s)" by (cases "active_readers s") auto
  from tight_reader [OF assms] obtain r where r: "r \<in> set (active_readers s)" "pos r \<le> offset ?w"
  proof
    assume "\<exists>r \<in> set (active_readers s). pos r \<le> offset ?w"
    with that show ?thesis by blast
  next
    assume sl: "streamlen ?w \<le> offset ?w"
    from r0 obtain i where "handle s i = Some r0" by (auto simp: active_readers_iff)
    from inv_handle(4) [OF assms this] sl have "pos r0 \<le> offset ?w" by simp
    with r0 that show ?thesis by blast
  qed
  then have "pos r \<in> set (map pos (active_readers s))" by simp
  with fin have "Min (set (map pos (active_readers s))) \<le> pos r" by (rule Min_le)
  with r(2) False show ?thesis by (simp add: min_position_def)
qed

lemmas eval_defs =
  init_def New_def Write_def AssignableTo_def trim_def streamlen_def Let_def slice_from_def
  Reader_def Close_def handle_def Read_def loop_cond_def Err_def NBRead_def doRead_def item_def
  index_def store_def Dispose_def

text \<open>\<open>Read\<close> in terms of \<open>NBRead\<close>, for every reader and channel.\<close>

lemma Read_NBRead:
  "Read c r w =
     (if pos r \<ge> streamlen w \<and> \<not> closed w
      then (case c of
              None \<Rightarrow> Panics NilDereference
            | Some b \<Rightarrow> if b then Returns ((zero_W w, False), r, w) else Blocks)
      else if c = Some True then Returns ((zero_W w, False), r, w)
      else (case NBRead r w of Inl e \<Rightarrow> Panics e | Inr x \<Rightarrow> Returns x))"
  by (auto simp: Read_def loop_cond_def Err_def NBRead_def split: option.splits sum.splits)

lemma advance_simps [simp]:
  "hist (advance i r s) = hist s"
  "closed (chan (advance i r s)) = closed (chan s)"
  "zero_W (chan (advance i r s)) = zero_W (chan s)"
  "zerotype (chan (advance i r s)) = zerotype (chan s)"
  "streamlen (chan (advance i r s)) = streamlen (chan s)"
  "length (handles (advance i r s)) = length (handles s)"
  by (simp_all add: advance_def)

lemma handle_advance:
  "handle s i = Some r \<Longrightarrow>
   handle (advance i r s) j = (if j = i then Some (r\<lparr>pos := pos r + 1\<rparr>) else handle s j)"
  by (auto simp: advance_def handle_def split: if_splits)

lemma inv_advance': "inv s \<Longrightarrow> handle s i = Some r \<Longrightarrow> pos r < streamlen (chan s) \<Longrightarrow> inv (advance i r s)"
  unfolding advance_def by (rule inv_advance)

lemma step_NBRead:
  assumes "inv s" "handle s i = Some r"
  shows "step (EvNBRead i) s =
    Some (if pos r < streamlen (chan s) then (Got i (hist s ! nat (pos r)) True, advance i r s)
          else (Got i (zero_W (chan s)) False, s))"
  using assms handles_update_same [OF assms(2)]
  by (simp add: NBRead_inv [OF assms] advance_def)

lemma step_Read:
  assumes "inv s" "handle s i = Some r"
  shows "step (EvRead c i) s =
    Some (if pos r \<ge> streamlen (chan s) \<and> \<not> closed (chan s) then
            (case c of None \<Rightarrow> (Panicked NilDereference, s)
             | Some b \<Rightarrow> if b then (Got i (zero_W (chan s)) False, s) else (Blocked, s))
          else if c = Some True \<or> pos r \<ge> streamlen (chan s) then (Got i (zero_W (chan s)) False, s)
          else (Got i (hist s ! nat (pos r)) True, advance i r s))"
  using assms handles_update_same [OF assms(2)]
  by (auto simp: Read_inv [OF assms] advance_def split: option.splits)

lemma step_read_available:
  assumes "inv s" "handle s i = Some r" "is_read_of i e" "pos r < streamlen (chan s)"
  shows "step e s = Some (Got i (hist s ! nat (pos r)) True, advance i r s)"
  using assms(3,4) step_NBRead [OF assms(1,2)] step_Read [OF assms(1,2)]
  by (auto simp: is_read_of_def)

lemma step_read_closed_end:
  assumes "inv s" "handle s i = Some r" "is_read_of i e" "pos r \<ge> streamlen (chan s)" "closed (chan s)"
  shows "step e s = Some (Got i (zero_W (chan s)) False, s)"
  using assms(3,4,5) step_NBRead [OF assms(1,2)] step_Read [OF assms(1,2)]
  by (auto simp: is_read_of_def)

lemma run_append:
  "run (es @ fs) s =
     (case run es s of None \<Rightarrow> None
      | Some (obs, s') \<Rightarrow> (case run fs s' of None \<Rightarrow> None | Some (obs', s'') \<Rightarrow> Some (obs @ obs', s'')))"
  by (induction es arbitrary: s) (auto split: option.splits)

lemma run_Cons_Some:
  "step e s = Some (ob, s1) \<Longrightarrow> run es s1 = Some (obs, s') \<Longrightarrow> run (e # es) s = Some (ob # obs, s')"
  by simp

text \<open>Reads of one reader on a closed channel: the remaining items, then the zero value.\<close>

lemma reads_closed:
  assumes "inv s" "closed (chan s)" "handle s i = Some r" "\<forall>e \<in> set calls. is_read_of i e"
  shows "\<exists>s'. run calls s =
      Some (map (\<lambda>x. Got i x True) (take (length calls) (drop (nat (pos r)) (hist s))) @
            replicate (length calls - (length (hist s) - nat (pos r))) (Got i (zero_W (chan s)) False), s')"
  using assms
proof (induction calls arbitrary: s r)
  case Nil
  then show ?case by simp
next
  case (Cons e calls)
  note h = inv_handle [OF Cons.prems(1,3)]
  from Cons.prems(1) have w: "wf s" by (simp add: inv_wf)
  note d = wfD [OF w]
  from Cons.prems(4) have e: "is_read_of i e" and rest: "\<forall>e \<in> set calls. is_read_of i e" by simp_all
  from h(3) d(2) have p0: "0 \<le> pos r" by simp
  show ?case
  proof (cases "pos r < streamlen (chan s)")
    case True
    let ?s1 = "advance i r s"
    from step_read_available [OF Cons.prems(1,3) e True]
    have st: "step e s = Some (Got i (hist s ! nat (pos r)) True, ?s1)" .
    have i1: "inv ?s1" using Cons.prems(1,3) True by (rule inv_advance')
    have c1: "closed (chan ?s1)" using Cons.prems(2) by simp
    have h1: "handle ?s1 i = Some (r\<lparr>pos := pos r + 1\<rparr>)"
      using Cons.prems(3) by (simp add: handle_advance)
    from Cons.IH [OF i1 c1 h1 rest] obtain s' where
      rn: "run calls ?s1 =
        Some (map (\<lambda>x. Got i x True) (take (length calls) (drop (nat (pos r + 1)) (hist s))) @
              replicate (length calls - (length (hist s) - nat (pos r + 1))) (Got i (zero_W (chan s)) False), s')"
      by auto
    from True d(3) p0 have lt: "nat (pos r) < length (hist s)" by simp
    have n1: "nat (pos r + 1) = Suc (nat (pos r))" using p0 by simp
    from lt have dr: "drop (nat (pos r)) (hist s) = hist s ! nat (pos r) # drop (Suc (nat (pos r))) (hist s)"
      by (simp add: Cons_nth_drop_Suc)
    from lt have cnt: "length (e # calls) - (length (hist s) - nat (pos r))
        = length calls - (length (hist s) - Suc (nat (pos r)))" by simp
    show ?thesis
      using run_Cons_Some [OF st rn] by (simp only: n1 dr cnt) simp
  next
    case False
    then have ge: "pos r \<ge> streamlen (chan s)" by simp
    from step_read_closed_end [OF Cons.prems(1,3) e ge Cons.prems(2)]
    have st: "step e s = Some (Got i (zero_W (chan s)) False, s)" .
    from Cons.IH [OF Cons.prems(1,2,3) rest] obtain s' where
      rn: "run calls s =
        Some (map (\<lambda>x. Got i x True) (take (length calls) (drop (nat (pos r)) (hist s))) @
              replicate (length calls - (length (hist s) - nat (pos r))) (Got i (zero_W (chan s)) False), s')"
      by auto
    from ge d(3) p0 have "length (hist s) \<le> nat (pos r)" by simp
    then have z: "drop (nat (pos r)) (hist s) = []" "length (hist s) - nat (pos r) = 0" by simp_all
    show ?thesis
      using run_Cons_Some [OF st rn] by (simp add: z)
  qed
qed

lemma static_doRead:
  "doRead r w = Inr (v, r', w') \<Longrightarrow> zero_W w' = zero_W w \<and> zerotype w' = zerotype w"
  by (auto simp: doRead_def trim_eq Let_def split: sum.splits)

lemma static_NBRead:
  "NBRead r w = Inr (x, r', w') \<Longrightarrow> zero_W w' = zero_W w \<and> zerotype w' = zerotype w"
  by (auto simp: NBRead_def split: if_splits sum.splits dest: static_doRead)

lemma static_Read:
  "Read c r w = Returns (x, r', w') \<Longrightarrow> zero_W w' = zero_W w \<and> zerotype w' = zerotype w"
  by (auto simp: Read_def split: if_splits sum.splits bool.splits dest: static_doRead)

lemma static_Dispose:
  "Dispose r w = Inr w' \<Longrightarrow> zero_W w' = zero_W w \<and> zerotype w' = zerotype w"
  by (auto simp: Dispose_def trim_eq split: sum.splits)

lemma static_step:
  assumes "step e s = Some (ob, s')"
  shows "zero_W (chan s') = zero_W (chan s) \<and> zerotype (chan s') = zerotype (chan s)"
proof (cases e)
  case (EvWrite v)
  with assms show ?thesis by (auto simp: Write_eq split: if_splits)
next
  case EvClose
  with assms show ?thesis by (auto simp: Close_def)
next
  case EvReader
  with assms show ?thesis by (auto simp: Reader_def)
next
  case (EvRead c i)
  with assms show ?thesis
    by (auto split: option.splits outcome.splits dest: static_Read)
next
  case (EvNBRead i)
  with assms show ?thesis
    by (auto split: option.splits sum.splits dest: static_NBRead)
next
  case (EvDispose i)
  with assms show ?thesis
    by (auto split: option.splits sum.splits dest: static_Dispose)
qed

lemma static_run:
  assumes "run es s = Some (obs, s')"
  shows "zero_W (chan s') = zero_W (chan s) \<and> zerotype (chan s') = zerotype (chan s)"
  using assms
proof (induction es arbitrary: s obs)
  case Nil
  then show ?case by simp
next
  case (Cons e es)
  from Cons.prems obtain ob s1 obs1 where
    st: "step e s = Some (ob, s1)" and rn: "run es s1 = Some (obs1, s')"
    by (auto split: option.splits prod.splits)
  from static_step [OF st] Cons.IH [OF rn] show ?case by simp
qed

lemma static_reachable:
  assumes "run es (init z) = Some (obs, s)"
  shows "zero_W (chan s) = z" "zerotype (chan s) = TypeOf z"
  using static_run [OF assms] by (simp_all add: init_def New_def)

text \<open>Non-blocking reads of a reader that has nothing to read.\<close>

lemma NBRead_idle:
  assumes "inv s" "handle s i = Some r" "pos r \<ge> streamlen (chan s)"
  shows "run (replicate k (EvNBRead i)) s = Some (replicate k (Got i (zero_W (chan s)) False), s)"
proof (induction k)
  case 0
  then show ?case by simp
next
  case (Suc k)
  from step_NBRead [OF assms(1,2)] assms(3)
  have "step (EvNBRead i) s = Some (Got i (zero_W (chan s)) False, s)" by simp
  with Suc show ?case by simp
qed

lemma delivered_Nil [simp]: "delivered i [] = []"
  by (simp add: delivered_def)

lemma delivered_Cons:
  "delivered i (ob # obs) =
     (case ob of Got j v ok \<Rightarrow> (if i = j \<and> ok then v # delivered i obs else delivered i obs)
      | _ \<Rightarrow> delivered i obs)"
  by (cases ob) (auto simp: delivered_def)

lemma hist_step:
  assumes "step e s = Some (ob, s1)"
  shows "\<exists>ys. hist s1 = hist s @ ys"
  using assms
  by (cases e) (auto split: option.splits sum.splits outcome.splits prod.splits)

lemma hist_run:
  assumes "run es s = Some (obs, s')"
  shows "\<exists>ys. hist s' = hist s @ ys"
  using assms
proof (induction es arbitrary: s obs)
  case Nil
  then show ?case by simp
next
  case (Cons e es)
  from Cons.prems obtain ob s1 obs1 where
    st: "step e s = Some (ob, s1)" and rn: "run es s1 = Some (obs1, s')"
    by (auto split: option.splits prod.splits)
  from hist_step [OF st] Cons.IH [OF rn] show ?case by auto
qed

text \<open>Once a reader is disposed of, no event names it any more.\<close>

lemma step_disposed:
  assumes "step e s = Some (ob, s1)" "i < length (handles s)" "handle s i = None"
  shows "i < length (handles s1) \<and> handle s1 i = None \<and> delivered i [ob] = []"
proof (cases e)
  case (EvWrite v)
  with assms show ?thesis
    by (auto simp: handle_def delivered_Cons split: sum.splits)
next
  case EvClose
  with assms show ?thesis by (auto simp: handle_def delivered_Cons)
next
  case EvReader
  with assms show ?thesis
    by (auto simp: handle_def delivered_Cons nth_append split: prod.splits)
next
  case (EvRead c j)
  with assms have "j \<noteq> i" by (auto split: option.splits)
  with EvRead assms show ?thesis
    by (auto simp: handle_def delivered_Cons split: option.splits outcome.splits if_splits)
next
  case (EvNBRead j)
  with assms have "j \<noteq> i" by (auto split: option.splits)
  with EvNBRead assms show ?thesis
    by (auto simp: handle_def delivered_Cons split: option.splits sum.splits if_splits)
next
  case (EvDispose j)
  with assms have "j \<noteq> i" by (auto split: option.splits)
  with EvDispose assms show ?thesis
    by (auto simp: handle_def delivered_Cons split: option.splits sum.splits if_splits)
qed

lemma run_disposed:
  assumes "run es s = Some (obs, s')" "i < length (handles s)" "handle s i = None"
  shows "handle s' i = None \<and> delivered i obs = []"
  using assms
proof (induction es arbitrary: s obs)
  case Nil
  then show ?case by simp
next
  case (Cons e es)
  from Cons.prems(1) obtain ob s1 obs1 where
    st: "step e s = Some (ob, s1)" and rn: "run es s1 = Some (obs1, s')" and o: "obs = ob # obs1"
    by (auto split: option.splits prod.splits)
  from step_disposed [OF st Cons.prems(2,3)]
  have a: "i < length (handles s1)" "handle s1 i = None" "delivered i [ob] = []" by simp_all
  from Cons.IH [OF rn a(1,2)] a(3) o show ?case
    by (cases ob) (auto simp: delivered_Cons split: if_splits)
qed

text \<open>What one event does to a reader in use.\<close>

lemma step_reader:
  assumes "inv s" "handle s i = Some r" "step e s = Some (ob, s1)"
  shows "(handle s1 i = Some r \<and> delivered i [ob] = []) \<or>
         (handle s1 i = Some (r\<lparr>pos := pos r + 1\<rparr>) \<and> pos r < streamlen (chan s) \<and>
            ob = Got i (hist s ! nat (pos r)) True \<and> hist s1 = hist s) \<or>
         (handle s1 i = None \<and> i < length (handles s1) \<and> delivered i [ob] = [])"
proof (cases e)
  case (EvWrite v)
  with assms(3) handle_SomeD [OF assms(2)] show ?thesis
    by (auto simp: handle_def delivered_Cons split: sum.splits)
next
  case EvClose
  with assms(3) handle_SomeD [OF assms(2)] show ?thesis
    by (auto simp: handle_def delivered_Cons)
next
  case EvReader
  with assms(3) handle_SomeD [OF assms(2)] show ?thesis
    by (auto simp: handle_def delivered_Cons nth_append split: prod.splits)
next
  case (EvRead c j)
  with assms(3) obtain rj where rj: "handle s j = Some rj" by (auto split: option.splits)
  show ?thesis
  proof (cases "j = i")
    case True
    with rj assms(2) have "rj = r" by simp
    with True EvRead assms(3) step_Read [OF assms(1,2), of c] assms(2) show ?thesis
      by (auto simp: delivered_Cons handle_advance split: if_splits option.splits)
  next
    case False
    with EvRead assms(3) step_Read [OF assms(1) rj, of c] assms(2) rj show ?thesis
      by (auto simp: delivered_Cons handle_advance split: if_splits option.splits)
  qed
next
  case (EvNBRead j)
  with assms(3) obtain rj where rj: "handle s j = Some rj" by (auto split: option.splits)
  show ?thesis
  proof (cases "j = i")
    case True
    with rj assms(2) have "rj = r" by simp
    with True EvNBRead assms(3) step_NBRead [OF assms(1,2)] assms(2) show ?thesis
      by (auto simp: delivered_Cons handle_advance split: if_splits)
  next
    case False
    with EvNBRead assms(3) step_NBRead [OF assms(1) rj] assms(2) rj show ?thesis
      by (auto simp: delivered_Cons handle_advance split: if_splits)
  qed
next
  case (EvDispose j)
  with assms(3) obtain rj where rj: "handle s j = Some rj" by (auto split: option.splits)
  from EvDispose assms(3) rj Dispose_inv [OF assms(1) rj]
  have s1: "s1 = s\<lparr>chan := trimmed ((chan s)\<lparr>readerpos := (readerpos (chan s))[j := - 1]\<rparr>),
               handles := (handles s)[j := None]\<rparr>" and ob: "ob = Done"
    by auto
  from handle_SomeD [OF assms(2)] show ?thesis
    by (cases "j = i") (auto simp: s1 ob handle_def delivered_Cons)
qed

text \<open>
  The items that a reader in use is handed over a run are the items of the stream
  from its position on, one by one.
\<close>

lemma delivered_run:
  assumes "inv s" "handle s i = Some r" "run es s = Some (obs, s')"
  shows "\<exists>n. delivered i obs = take n (drop (nat (pos r)) (hist s')) \<and>
             nat (pos r) + n \<le> length (hist s') \<and>
             (\<forall>r'. handle s' i = Some r' \<longrightarrow> pos r' = pos r + int n)"
  using assms
proof (induction es arbitrary: s r obs)
  case Nil
  from Nil.prems(1) have w: "wf s" by (simp add: inv_wf)
  note h = inv_handle [OF Nil.prems(1,2)]
  from h(4) wfD(3) [OF w] have "nat (pos r) \<le> length (hist s)" by simp
  with Nil show ?case by auto
next
  case (Cons e es)
  from Cons.prems(3) obtain ob s1 obs1 where
    st: "step e s = Some (ob, s1)" and rn: "run es s1 = Some (obs1, s')" and o: "obs = ob # obs1"
    by (auto split: option.splits prod.splits)
  from Cons.prems(1) st have i1: "inv s1" by (rule inv_step)
  from Cons.prems(1) have w: "wf s" by (simp add: inv_wf)
  note h = inv_handle [OF Cons.prems(1,2)]
  from h(3) wfD(2) [OF w] have p0: "0 \<le> pos r" by simp
  have dl: "delivered i obs = delivered i [ob] @ delivered i obs1"
    unfolding o by (cases ob) (auto simp: delivered_Cons)
  from step_reader [OF Cons.prems(1,2) st]
  consider (same) "handle s1 i = Some r" "delivered i [ob] = []"
    | (adv) "handle s1 i = Some (r\<lparr>pos := pos r + 1\<rparr>)" "pos r < streamlen (chan s)"
        "ob = Got i (hist s ! nat (pos r)) True" "hist s1 = hist s"
    | (gone) "handle s1 i = None" "i < length (handles s1)" "delivered i [ob] = []"
    by (elim disjE conjE) blast+
  then show ?case
  proof cases
    case same
    from Cons.IH [OF i1 same(1) rn] same(2) dl show ?thesis by simp
  next
    case adv
    from Cons.IH [OF i1 adv(1) rn] obtain n where
      n: "delivered i obs1 = take n (drop (nat (pos r + 1)) (hist s'))"
        "nat (pos r + 1) + n \<le> length (hist s')"
        "\<forall>r'. handle s' i = Some r' \<longrightarrow> pos r' = pos r + 1 + int n"
      by auto
    have n1: "nat (pos r + 1) = Suc (nat (pos r))" using p0 by simp
    from adv(2) wfD(3) [OF w] p0 have lt: "nat (pos r) < length (hist s)" by simp
    from hist_run [OF rn] adv(4) obtain ys where ys: "hist s' = hist s @ ys" by auto
    from lt ys have same: "hist s ! nat (pos r) = hist s' ! nat (pos r)"
      by (simp add: nth_append)
    from lt ys have lt': "nat (pos r) < length (hist s')" by simp
    have "delivered i obs = hist s' ! nat (pos r) # take n (drop (Suc (nat (pos r))) (hist s'))"
      using dl adv(3) n(1) same by (simp add: delivered_Cons n1)
    also have "\<dots> = take (Suc n) (drop (nat (pos r)) (hist s'))"
      using lt' by (simp add: Cons_nth_drop_Suc [symmetric])
    finally have a: "delivered i obs = take (Suc n) (drop (nat (pos r)) (hist s'))" .
    from n(2) have b: "nat (pos r) + Suc n \<le> length (hist s')" by (simp add: n1)
    from n(3) have c: "\<forall>r'. handle s' i = Some r' \<longrightarrow> pos r' = pos r + int (Suc n)" by simp
    from a b c show ?thesis by blast
  next
    case gone
    from run_disposed [OF rn gone(2,1)] gone(3) dl
    have a: "delivered i obs = []" and b: "handle s' i = None" by simp_all
    from h(4) wfD(3) [OF w] have "nat (pos r) \<le> length (hist s)" by simp
    moreover from hist_run [OF Cons.prems(3)] have "length (hist s) \<le> length (hist s')" by auto
    ultimately have "nat (pos r) + 0 \<le> length (hist s')" by simp
    with a b show ?thesis by (intro exI [of _ 0]) simp
  qed
qed

lemma received_Gots:
  "received i (map (\<lambda>x. Got i x True) xs @ replicate m (Got i z False)) =
     map (\<lambda>x. (x, True)) xs @ replicate m (z, False)"
proof (induction xs)
  case Nil
  show ?case by (induction m) simp_all
next
  case (Cons x xs)
  then show ?case by simp
qed

lemma received_Cons_other:
  "(\<And>v ok. ob \<noteq> Got i v ok) \<Longrightarrow> received i (ob # obs) = received i obs"
  by (cases ob) auto

lemma live_context: "c \<noteq> Some True \<Longrightarrow> is_read_of i (EvRead c i)"
  by (cases c) (auto simp: is_read_of_def)

text \<open>After \<open>Close\<close>: enough reads hand over what is left and then the zero value.\<close>

lemma after_Close:
  assumes "inv s" "closed (chan s)" "handle s 0 = Some r" "zero_W (chan s) = z"
    and "\<forall>e \<in> set calls. e = EvRead c 0" and "c \<noteq> Some True"
    and "length (hist s) - nat (pos r) < length calls"
  shows "\<exists>obs s' k. run calls s = Some (obs, s') \<and>
           received 0 obs = map (\<lambda>x. (x, True)) (drop (nat (pos r)) (hist s)) @ replicate (Suc k) (z, False) \<and>
           (\<forall>e. Panicked e \<notin> set obs)"
proof -
  let ?rest = "drop (nat (pos r)) (hist s)"
  let ?m = "length calls - (length (hist s) - nat (pos r))"
  from assms(5,6) have "\<forall>e \<in> set calls. is_read_of 0 e" by (auto simp: live_context)
  from reads_closed [OF assms(1,2,3) this] assms(4) obtain s' where
    rn: "run calls s = Some (map (\<lambda>x. Got 0 x True) (take (length calls) ?rest) @
            replicate ?m (Got 0 z False), s')"
    by auto
  from assms(7) have tk: "take (length calls) ?rest = ?rest" by simp
  from assms(7) obtain k where k: "?m = Suc k" by (cases ?m) auto
  let ?obs = "map (\<lambda>x. Got 0 x True) ?rest @ replicate (Suc k) (Got 0 z False)"
  from rn tk k have "run calls s = Some (?obs, s')" by simp
  moreover have "received 0 ?obs = map (\<lambda>x. (x, True)) ?rest @ replicate (Suc k) (z, False)"
    by (rule received_Gots)
  moreover have "\<forall>e. Panicked e \<notin> set ?obs" by auto
  ultimately show ?thesis by blast
qed

text \<open>
  Before \<open>Close\<close>: the writer still has \<open>ys\<close> to write and then closes; the reader
  makes attempts in between, and \<open>n\<close> more at the end.
\<close>

lemma before_Close:
  assumes "inv s" "\<not> closed (chan s)" "handle s 0 = Some r"
    and "zero_W (chan s) = z" "zerotype (chan s) = TypeOf z"
    and "\<forall>x \<in> set ys. TypeOf x = TypeOf z"
    and "filter is_writer es = map EvWrite ys @ [EvClose]"
    and "\<forall>e \<in> set es. is_writer e \<or> e = EvRead c 0"
    and "c \<noteq> Some True"
    and "length (hist s) + length ys < n + nat (pos r)"
  shows "\<exists>obs s' k. run (es @ replicate n (EvRead c 0)) s = Some (obs, s') \<and>
           received 0 obs =
             map (\<lambda>x. (x, True)) (drop (nat (pos r)) (hist s @ ys)) @ replicate (Suc k) (z, False) \<and>
           (c = Some False \<or> (\<forall>e \<in> set es. is_writer e) \<longrightarrow> (\<forall>e. Panicked e \<notin> set obs))"
  using assms
proof (induction es arbitrary: s r ys)
  case Nil
  then show ?case by simp
next
  case (Cons e es)
  note i = Cons.prems(1) and h = Cons.prems(3)
  note hh = inv_handle [OF i h]
  from i have w: "wf s" by (simp add: inv_wf)
  note d = wfD [OF w]
  from hh(3) d(2) have p0: "0 \<le> pos r" by simp
  from Cons.prems(8) have e: "is_writer e \<or> e = EvRead c 0"
    and rest: "\<forall>e \<in> set es. is_writer e \<or> e = EvRead c 0" by simp_all
  let ?tail = "es @ replicate n (EvRead c 0)"
  consider (attempt) "e = EvRead c 0" | (item) v where "e = EvWrite v" | (closing) "e = EvClose"
    using e by (cases e) auto
  then show ?case
  proof cases
    case attempt
    with Cons.prems(7) have fl: "filter is_writer es = map EvWrite ys @ [EvClose]" by simp
    show ?thesis
    proof (cases "pos r < streamlen (chan s)")
      case True
      let ?s1 = "advance 0 r s"
      let ?r1 = "r\<lparr>pos := pos r + 1\<rparr>"
      from step_read_available [OF i h live_context [OF Cons.prems(9)] True] attempt
      have st: "step e s = Some (Got 0 (hist s ! nat (pos r)) True, ?s1)" by simp
      have i1: "inv ?s1" using i h True by (rule inv_advance')
      have h1: "handle ?s1 0 = Some ?r1" using h by (simp add: handle_advance)
      from True d(3) p0 have lt: "nat (pos r) < length (hist s)" by simp
      have n1: "nat (pos r + 1) = Suc (nat (pos r))" using p0 by simp
      have bound: "length (hist ?s1) + length ys < n + nat (pos ?r1)"
        using Cons.prems(10) by (simp add: n1)
      from Cons.IH [OF i1 _ h1 _ _ Cons.prems(6) fl rest Cons.prems(9) bound] Cons.prems(2,4,5)
      obtain obs1 s' k where
        rn: "run ?tail ?s1 = Some (obs1, s')"
        and rc: "received 0 obs1 =
          map (\<lambda>x. (x, True)) (drop (Suc (nat (pos r))) (hist s @ ys)) @ replicate (Suc k) (z, False)"
        and np: "c = Some False \<or> (\<forall>e \<in> set es. is_writer e) \<longrightarrow> (\<forall>e. Panicked e \<notin> set obs1)"
        by (auto simp: n1)
      let ?obs = "Got 0 (hist s ! nat (pos r)) True # obs1"
      from st rn have a: "run ((e # es) @ replicate n (EvRead c 0)) s = Some (?obs, s')" by simp
      from lt have "drop (nat (pos r)) (hist s @ ys) =
          hist s ! nat (pos r) # drop (Suc (nat (pos r))) (hist s @ ys)"
        by (metis Cons_nth_drop_Suc length_append nth_append trans_less_add1)
      with rc have b: "received 0 ?obs =
          map (\<lambda>x. (x, True)) (drop (nat (pos r)) (hist s @ ys)) @ replicate (Suc k) (z, False)"
        by simp
      from np attempt have c: "c = Some False \<or> (\<forall>e \<in> set (e # es). is_writer e) \<longrightarrow>
          (\<forall>e. Panicked e \<notin> set ?obs)" by auto
      from a b c show ?thesis by blast
    next
      case False
      then have ge: "pos r \<ge> streamlen (chan s)" by simp
      from Cons.prems(9) have cc: "c = None \<or> c = Some False" by (cases c) auto
      let ?ob = "case c of None \<Rightarrow> Panicked NilDereference | Some b \<Rightarrow> Blocked"
      from step_Read [OF i h, of c] ge Cons.prems(2) cc attempt
      have st: "step e s = Some (?ob, s)" by auto
      from Cons.IH [OF i Cons.prems(2) h Cons.prems(4,5,6) fl rest Cons.prems(9,10)]
      obtain obs1 s' k where
        rn: "run ?tail s = Some (obs1, s')"
        and rc: "received 0 obs1 =
          map (\<lambda>x. (x, True)) (drop (nat (pos r)) (hist s @ ys)) @ replicate (Suc k) (z, False)"
        and np: "c = Some False \<or> (\<forall>e \<in> set es. is_writer e) \<longrightarrow> (\<forall>e. Panicked e \<notin> set obs1)"
        by blast
      from st rn have a: "run ((e # es) @ replicate n (EvRead c 0)) s = Some (?ob # obs1, s')" by simp
      from rc cc have b: "received 0 (?ob # obs1) =
          map (\<lambda>x. (x, True)) (drop (nat (pos r)) (hist s @ ys)) @ replicate (Suc k) (z, False)"
        by auto
      from np attempt cc have c: "c = Some False \<or> (\<forall>e \<in> set (e # es). is_writer e) \<longrightarrow>
          (\<forall>e. Panicked e \<notin> set (?ob # obs1))" by auto
      from a b c show ?thesis by blast
    qed
  next
    case item
    with Cons.prems(7) obtain ys' where ys: "ys = v # ys'"
      and fl: "filter is_writer es = map EvWrite ys' @ [EvClose]"
      by (cases ys) auto
    let ?s1 = "s\<lparr>chan := trimmed ((chan s)\<lparr>items := items (chan s) @ [v]\<rparr>), hist := hist s @ [v]\<rparr>"
    from Cons.prems(5,6) ys have ty: "TypeOf v = zerotype (chan s)" by simp
    with item have st: "step e s = Some (Done, ?s1)" by (simp add: Write_eq)
    have i1: "inv ?s1" using i ty by (rule inv_Write)
    have h1: "handle ?s1 0 = Some r" using handle_SomeD [OF h] by (simp add: handle_def)
    have c1: "\<not> closed (chan ?s1)" using Cons.prems(2) by simp
    have z1: "zero_W (chan ?s1) = z" "zerotype (chan ?s1) = TypeOf z" using Cons.prems(4,5) by simp_all
    from Cons.prems(6) ys have t1: "\<forall>x \<in> set ys'. TypeOf x = TypeOf z" by simp
    have bound: "length (hist ?s1) + length ys' < n + nat (pos r)"
      using Cons.prems(10) ys by simp
    from Cons.IH [OF i1 c1 h1 z1 t1 fl rest Cons.prems(9) bound]
    obtain obs1 s' k where
      rn: "run ?tail ?s1 = Some (obs1, s')"
      and rc: "received 0 obs1 =
        map (\<lambda>x. (x, True)) (drop (nat (pos r)) (hist s @ ys)) @ replicate (Suc k) (z, False)"
      and np: "c = Some False \<or> (\<forall>e \<in> set es. is_writer e) \<longrightarrow> (\<forall>e. Panicked e \<notin> set obs1)"
      by (auto simp: ys)
    from st rn have a: "run ((e # es) @ replicate n (EvRead c 0)) s = Some (Done # obs1, s')" by simp
    from rc have b: "received 0 (Done # obs1) =
        map (\<lambda>x. (x, True)) (drop (nat (pos r)) (hist s @ ys)) @ replicate (Suc k) (z, False)"
      by simp
    from np have c: "c = Some False \<or> (\<forall>e \<in> set (e # es). is_writer e) \<longrightarrow>
        (\<forall>e. Panicked e \<notin> set (Done # obs1))" by auto
    from a b c show ?thesis by blast
  next
    case closing
    with Cons.prems(7) have ys: "ys = []" and fl: "filter is_writer es = []"
      by (cases ys; simp)+
    let ?s1 = "s\<lparr>chan := Close (chan s)\<rparr>"
    from closing have st: "step e s = Some (Done, ?s1)" by simp
    have i1: "inv ?s1" using i by (rule inv_Close)
    have h1: "handle ?s1 0 = Some r" using handle_SomeD [OF h] by (simp add: handle_def)
    have c1: "closed (chan ?s1)" by (simp add: Close_def)
    have z1: "zero_W (chan ?s1) = z" using Cons.prems(4) by (simp add: Close_def)
    from fl rest have "\<forall>e \<in> set es. e = EvRead c 0"
      by (auto simp: filter_empty_conv)
    then have calls: "\<forall>e \<in> set ?tail. e = EvRead c 0" by auto
    from hh(4) d(3) have "nat (pos r) \<le> length (hist s)" by simp
    with Cons.prems(10) ys have bound: "length (hist ?s1) - nat (pos r) < length ?tail" by simp
    from after_Close [OF i1 c1 h1 z1 calls Cons.prems(9) bound]
    obtain obs1 s' k where
      rn: "run ?tail ?s1 = Some (obs1, s')"
      and rc: "received 0 obs1 =
        map (\<lambda>x. (x, True)) (drop (nat (pos r)) (hist s)) @ replicate (Suc k) (z, False)"
      and np: "\<forall>e. Panicked e \<notin> set obs1"
      by auto
    from st rn have a: "run ((e # es) @ replicate n (EvRead c 0)) s = Some (Done # obs1, s')" by simp
    from rc ys have b: "received 0 (Done # obs1) =
        map (\<lambda>x. (x, True)) (drop (nat (pos r)) (hist s @ ys)) @ replicate (Suc k) (z, False)"
      by simp
    from np have c: "c = Some False \<or> (\<forall>e \<in> set (e # es). is_writer e) \<longrightarrow>
        (\<forall>e. Panicked e \<notin> set (Done # obs1))" by auto
    from a b c show ?thesis by blast
  qed
qed

lemma trimmed_id:
  assumes "trim_min (readerpos w) (streamlen w) \<le> offset w"
  shows "trimmed w = w"
proof -
  from assms have "max (offset w) (trim_min (readerpos w) (streamlen w)) = offset w" by simp
  then show ?thesis by (simp add: trimmed_def Let_def)
qed

lemma trimmed_idem: "trimmed (trimmed w) = trimmed w"
  by (rule trimmed_id) simp

lemma closed_doRead: "doRead r w = Inr (v, r', w') \<Longrightarrow> closed w' = closed w"
  by (auto simp: doRead_def trim_eq Let_def split: sum.splits)

lemma closed_NBRead: "NBRead r w = Inr (x, r', w') \<Longrightarrow> closed w' = closed w"
  by (auto simp: NBRead_def split: if_splits sum.splits dest: closed_doRead)

lemma closed_Read: "Read c r w = Returns (x, r', w') \<Longrightarrow> closed w' = closed w"
  by (auto simp: Read_def split: if_splits sum.splits bool.splits dest: closed_doRead)

lemma closed_Dispose: "Dispose r w = Inr w' \<Longrightarrow> closed w' = closed w"
  by (auto simp: Dispose_def trim_eq split: sum.splits)

lemma closed_step:
  assumes "step e s = Some (ob, s')" "closed (chan s)"
  shows "closed (chan s')"
proof (cases e)
  case (EvWrite v)
  with assms show ?thesis by (auto simp: Write_eq split: if_splits)
next
  case EvClose
  with assms show ?thesis by (auto simp: Close_def)
next
  case EvReader
  with assms show ?thesis by (auto simp: Reader_def)
next
  case (EvRead c i)
  with assms show ?thesis
    by (auto split: option.splits outcome.splits dest: closed_Read)
next
  case (EvNBRead i)
  with assms show ?thesis
    by (auto split: option.splits sum.splits dest: closed_NBRead)
next
  case (EvDispose i)
  with assms show ?thesis
    by (auto split: option.splits sum.splits dest: closed_Dispose)
qed

text \<open>
  What an attempt of \<open>Read\<close> does at the end of an open stream, by the context: it
  waits only when it was given a context.
\<close>

lemma Read_at_end_of_open_stream:
  assumes "pos r \<ge> streamlen w" "\<not> closed w"
  shows "Read None r w = Panics NilDereference"
    and "Read (Some False) r w = Blocks"
    and "Read (Some True) r w = Returns ((zero_W w, False), r, w)"
  using assms by (simp_all add: Read_def loop_cond_def Err_def)

text \<open>
  The entry of a reader in use, in every reachable state: the reader's position, or
  the 0 that \<open>Reader\<close> stored, the reader then standing at \<open>offset\<close>.
\<close>

lemma entry_of_reader:
  assumes "run es (init z) = Some (obs, s)" "handle s i = Some r"
  shows "readerpos (chan s) ! i = pos r \<or> (readerpos (chan s) ! i = 0 \<and> pos r = offset (chan s))"
  using inv_handle(5) [OF inv_reachable [OF assms(1)] assms(2)] .






text \<open>
  One reader, added to a new channel before anything is written.  The writer writes
  the items \<open>xs\<close>, each of the channel's type, and closes; the reader's attempts of
  \<open>Read\<close> fall anywhere between the writer's calls, and it goes on reading after
  \<open>Close\<close>.  When the reader passes a context that is not nil and not cancelled,
  or passes nil and makes its first attempt after \<open>Close\<close>, it is returned exactly
  the items \<open>xs\<close> with \<open>true\<close>, in the order written and each once, and after them
  only the zero value with \<open>false\<close>, and no call panics.
\<close>

lemma order_preserved_unless_nil_waits:
  assumes "\<forall>x \<in> set xs. TypeOf x = TypeOf z"
    and "filter is_writer es = map EvWrite xs @ [EvClose]"
    and "\<forall>e \<in> set es. is_writer e \<or> e = EvRead c 0"
    and "c = Some False \<or> (c = None \<and> (\<forall>e \<in> set es. is_writer e))"
  shows "\<exists>obs s k.
    run (EvReader # es @ replicate (Suc (length xs)) (EvRead c 0)) (init z) = Some (obs, s) \<and>
    received 0 obs = map (\<lambda>x. (x, True)) xs @ replicate (Suc k) (z, False) \<and>
    (\<forall>e. Panicked e \<notin> set obs)"
proof -
  let ?s1 = "(init z)\<lparr>chan := snd (Reader (chan (init z))),
                handles := handles (init z) @ [Some (fst (Reader (chan (init z))))]\<rparr>"
  let ?r = "\<lparr>id_R = 0, pos = 0\<rparr>"
  have st: "step EvReader (init z) = Some (Done, ?s1)" by (simp split: prod.splits)
  have i1: "inv ?s1" using inv_init by (rule inv_Reader)
  have h1: "handle ?s1 0 = Some ?r" by (simp add: handle_def init_def Reader_def New_def)
  have c1: "\<not> closed (chan ?s1)" by (simp add: init_def Reader_def New_def)
  have z1: "zero_W (chan ?s1) = z" "zerotype (chan ?s1) = TypeOf z"
    by (simp_all add: init_def Reader_def New_def)
  have hs: "hist ?s1 = []" by (simp add: init_def)
  from assms(4) have live: "c \<noteq> Some True" by auto
  have bound: "length (hist ?s1) + length xs < Suc (length xs) + nat (pos ?r)"
    by (simp add: hs)
  from before_Close [OF i1 c1 h1 z1 assms(1,2,3) live bound] assms(4)
  obtain obs1 s' k where
    rn: "run (es @ replicate (Suc (length xs)) (EvRead c 0)) ?s1 = Some (obs1, s')"
    and rc: "received 0 obs1 = map (\<lambda>x. (x, True)) xs @ replicate (Suc k) (z, False)"
    and np: "\<forall>e. Panicked e \<notin> set obs1"
    by (auto simp: hs)
  from st rn have "run (EvReader # es @ replicate (Suc (length xs)) (EvRead c 0)) (init z) =
      Some (Done # obs1, s')" by simp
  moreover from rc have "received 0 (Done # obs1) =
      map (\<lambda>x. (x, True)) xs @ replicate (Suc k) (z, False)" by simp
  moreover from np have "\<forall>e. Panicked e \<notin> set (Done # obs1)" by simp
  ultimately show ?thesis by blast
qed

section \<open>The claims\<close>

text \<open>
  C1 fails on the code.  One reader is added before anything is written and reads
  with the nil context, which the documentation of \<open>Read\<close> allows and the tests
  pass, while the writer is still writing.  After \<open>Write(1)\<close> the reader is
  returned 1.  Its next call comes before the writer's next \<open>Write\<close>: its position
  is the end of the open stream, the loop condition reaches \<open>ctx.Err()\<close> on the nil
  interface, and the call panics where it should wait for the next item.  The same
  call with a context that is not nil waits.  The defect is the one of C3.
\<close>

theorem Read_nil_between_writes_panics:
  "run [EvReader, EvWrite (VInt 1), EvRead None 0, EvRead None 0] (init (VInt 0)) =
     Some ([Done, Done, Got 0 (VInt 1) True, Panicked NilDereference],
           \<lparr>chan = \<lparr>zero_W = VInt 0, zerotype = TInt, closed = False, items = [], offset = 1,
                  readerpos = [1]\<rparr>,
           handles = [Some \<lparr>id_R = 0, pos = 1\<rparr>], hist = [VInt 1]\<rparr>) \<and>
   run [EvReader, EvWrite (VInt 1), EvRead (Some False) 0, EvRead (Some False) 0] (init (VInt 0)) =
     Some ([Done, Done, Got 0 (VInt 1) True, Blocked],
           \<lparr>chan = \<lparr>zero_W = VInt 0, zerotype = TInt, closed = False, items = [], offset = 1,
                  readerpos = [1]\<rparr>,
           handles = [Some \<lparr>id_R = 0, pos = 1\<rparr>], hist = [VInt 1]\<rparr>)"
  by (simp add: eval_defs)

text \<open>
  C2 as stated fails: with one reader attached, \<open>Close\<close> and then \<open>Write(1)\<close>
  moves the end of the sequence from 0 to 1, and the reader is handed the item.
\<close>

theorem Write_after_Close_counterexample:
  "Reader (New (VInt 0)) =
     (\<lparr>id_R = 0, pos = 0\<rparr>,
      \<lparr>zero_W = VInt 0, zerotype = TInt, closed = False, items = [], offset = 0, readerpos = [0]\<rparr>) \<and>
   Close \<lparr>zero_W = VInt 0, zerotype = TInt, closed = False, items = [], offset = 0, readerpos = [0]\<rparr> =
      \<lparr>zero_W = VInt 0, zerotype = TInt, closed = True, items = [], offset = 0, readerpos = [0]\<rparr> \<and>
   streamlen \<lparr>zero_W = VInt 0, zerotype = TInt, closed = True, items = [], offset = 0, readerpos = [0]\<rparr> = 0 \<and>
   Write \<lparr>zero_W = VInt 0, zerotype = TInt, closed = True, items = [], offset = 0, readerpos = [0]\<rparr> (VInt 1) =
      Inr \<lparr>zero_W = VInt 0, zerotype = TInt, closed = True, items = [VInt 1], offset = 0, readerpos = [0]\<rparr> \<and>
   streamlen \<lparr>zero_W = VInt 0, zerotype = TInt, closed = True, items = [VInt 1], offset = 0, readerpos = [0]\<rparr> = 1 \<and>
   NBRead \<lparr>id_R = 0, pos = 0\<rparr>
      \<lparr>zero_W = VInt 0, zerotype = TInt, closed = True, items = [VInt 1], offset = 0, readerpos = [0]\<rparr> =
      Inr ((VInt 1, True), \<lparr>id_R = 0, pos = 1\<rparr>,
           \<lparr>zero_W = VInt 0, zerotype = TInt, closed = True, items = [], offset = 1, readerpos = [1]\<rparr>)"
  by (simp add: Reader_def New_def Close_def Write_def AssignableTo_def trim_def streamlen_def
      Let_def NBRead_def doRead_def item_def index_def store_def slice_from_def)

text \<open>
  C2 (as amended).  Once \<open>closed\<close> is true no method call makes it false again.
  \<open>Write\<close> does not look at \<open>closed\<close>: on a closed channel a call of \<open>Write\<close>
  with an item of the channel's type is accepted and the item is appended: the
  channel after the call is the channel before it with the item at the end of
  \<open>items\<close>, trimmed, so \<open>items\<close> is the old \<open>items\<close> followed by the item, less
  what \<open>trim\<close> dropped from its front, and the end of the sequence (\<open>streamlen\<close>)
  has grown by one.  Only an item of another type is refused, by the panic that
  leaves the channel as it was.
\<close>

theorem Write_after_Close:
  assumes "closed (chan s)" and "step e s = Some (ob, s')"
  shows "closed (chan s') \<and>
    (\<forall>v. e = EvWrite v \<longrightarrow>
       (if TypeOf v = zerotype (chan s)
        then ob = Done \<and> hist s' = hist s @ [v] \<and> streamlen (chan s') = streamlen (chan s) + 1 \<and>
             Write (chan s) v = Inr (chan s') \<and>
             chan s' = trimmed ((chan s)\<lparr>items := items (chan s) @ [v]\<rparr>) \<and>
             offset (chan s) \<le> offset (chan s') \<and>
             items (chan s') =
               drop (nat (offset (chan s') - offset (chan s))) (items (chan s) @ [v]) \<and>
             readerpos (chan s') = readerpos (chan s) \<and> handles s' = handles s
        else ob = Panicked TypeMismatch \<and> s' = s))"
proof
  from assms(2,1) show "closed (chan s')" by (rule closed_step)
  show "\<forall>v. e = EvWrite v \<longrightarrow>
       (if TypeOf v = zerotype (chan s)
        then ob = Done \<and> hist s' = hist s @ [v] \<and> streamlen (chan s') = streamlen (chan s) + 1 \<and>
             Write (chan s) v = Inr (chan s') \<and>
             chan s' = trimmed ((chan s)\<lparr>items := items (chan s) @ [v]\<rparr>) \<and>
             offset (chan s) \<le> offset (chan s') \<and>
             items (chan s') =
               drop (nat (offset (chan s') - offset (chan s))) (items (chan s) @ [v]) \<and>
             readerpos (chan s') = readerpos (chan s) \<and> handles s' = handles s
        else ob = Panicked TypeMismatch \<and> s' = s)"
    using assms(2) by (auto simp: Write_eq)
qed

text \<open>An instance: the channel of one reader, closed, accepts \<open>Write(1)\<close>.\<close>

theorem Write_after_Close_witness:
  "closed (chan \<lparr>chan = \<lparr>zero_W = VInt 0, zerotype = TInt, closed = True, items = [], offset = 0,
        readerpos = [0]\<rparr>, handles = [Some \<lparr>id_R = 0, pos = 0\<rparr>], hist = []\<rparr>) \<and>
   step (EvWrite (VInt 1)) \<lparr>chan = \<lparr>zero_W = VInt 0, zerotype = TInt, closed = True, items = [], offset = 0,
        readerpos = [0]\<rparr>, handles = [Some \<lparr>id_R = 0, pos = 0\<rparr>], hist = []\<rparr>
     = Some (Done, \<lparr>chan = \<lparr>zero_W = VInt 0, zerotype = TInt, closed = True, items = [VInt 1], offset = 0,
        readerpos = [0]\<rparr>, handles = [Some \<lparr>id_R = 0, pos = 0\<rparr>], hist = [VInt 1]\<rparr>) \<and>
   closed \<lparr>zero_W = VInt 0, zerotype = TInt, closed = True, items = [VInt 1], offset = 0,
        readerpos = [0]\<rparr> \<and>
   streamlen \<lparr>zero_W = VInt 0, zerotype = TInt, closed = True, items = [VInt 1], offset = 0,
        readerpos = [0]\<rparr> = 1 \<and>
   items \<lparr>zero_W = VInt 0, zerotype = TInt, closed = True, items = [VInt 1], offset = 0,
        readerpos = [0]\<rparr> = drop (nat (0 - 0)) ([] @ [VInt 1])"
proof -
  let ?s = "\<lparr>chan = \<lparr>zero_W = VInt 0, zerotype = TInt, closed = True, items = [], offset = 0,
        readerpos = [0]\<rparr>, handles = [Some \<lparr>id_R = 0, pos = 0\<rparr>], hist = []\<rparr>"
  let ?s' = "\<lparr>chan = \<lparr>zero_W = VInt 0, zerotype = TInt, closed = True, items = [VInt 1], offset = 0,
        readerpos = [0]\<rparr>, handles = [Some \<lparr>id_R = 0, pos = 0\<rparr>], hist = [VInt 1]\<rparr>"
  have c: "closed (chan ?s)" by simp
  have st: "step (EvWrite (VInt 1)) ?s = Some (Done, ?s')"
    by (simp add: Write_def AssignableTo_def trim_def streamlen_def Let_def)
  from Write_after_Close [OF c st] c st show ?thesis
    by (simp add: streamlen_def)
qed

text \<open>
  C3 fails on the code.  A reader of a new channel calls \<open>Read(nil)\<close>: its position
  is the end of the stream and the channel is open, so the loop condition reaches
  \<open>ctx.Err()\<close> on the nil interface, and the call panics instead of waiting.
\<close>

theorem Read_nil_context_panics:
  "Reader (New (VInt 0)) =
     (\<lparr>id_R = 0, pos = 0\<rparr>,
      \<lparr>zero_W = VInt 0, zerotype = TInt, closed = False, items = [], offset = 0, readerpos = [0]\<rparr>) \<and>
   Read None \<lparr>id_R = 0, pos = 0\<rparr>
      \<lparr>zero_W = VInt 0, zerotype = TInt, closed = False, items = [], offset = 0, readerpos = [0]\<rparr> =
     Panics NilDereference"
  by (simp add: Reader_def New_def Read_def loop_cond_def Err_def streamlen_def)

text \<open>
  C4 as stated fails: \<open>Write(1)\<close> on a channel without readers discards the item
  and moves \<open>offset\<close> to 1; the reader that \<open>Reader\<close> then adds gets the entry 0
  in \<open>readerpos\<close>, below \<open>offset\<close>.
\<close>

theorem base_above_fresh_entry_counterexample:
  "run [EvWrite (VInt 1), EvReader] (init (VInt 0)) =
     Some ([Done, Done],
       \<lparr>chan = \<lparr>zero_W = VInt 0, zerotype = TInt, closed = False, items = [], offset = 1, readerpos = [0]\<rparr>,
        handles = [Some \<lparr>id_R = 0, pos = 1\<rparr>], hist = [VInt 1]\<rparr>) \<and>
   \<not> base_le_cursors
      \<lparr>zero_W = VInt 0, zerotype = TInt, closed = False, items = [], offset = 1, readerpos = [0]\<rparr>"
  by (simp add: init_def Reader_def New_def Write_def AssignableTo_def trim_def streamlen_def
      Let_def slice_from_def base_le_cursors_def)

text \<open>
  C4 (as amended).  In every reachable state \<open>offset\<close> is at most the end of the
  stream and at most the position of every reader in use, hence at most the
  minimum of these positions; and it is at most every entry of \<open>readerpos\<close> that a
  read has written (every entry greater than 0).
\<close>

theorem base_bounds:
  assumes "run es (init z) = Some (obs, s)"
  shows "offset (chan s) \<le> streamlen (chan s) \<and>
         (\<forall>r \<in> set (active_readers s). offset (chan s) \<le> pos r) \<and>
         (\<forall>p \<in> set (readerpos (chan s)). 0 < p \<longrightarrow> offset (chan s) \<le> p)"
proof -
  let ?w = "chan s"
  from assms have i: "inv s" by (rule inv_reachable)
  then have w: "wf s" by (simp add: inv_wf)
  note d = wfD [OF w]
  have a: "offset ?w \<le> streamlen ?w" by (simp add: streamlen_def)
  have b: "\<forall>r \<in> set (active_readers s). offset ?w \<le> pos r"
    using inv_handle(3) [OF i] by (auto simp: active_readers_iff)
  have c: "\<forall>p \<in> set (readerpos ?w). 0 < p \<longrightarrow> offset ?w \<le> p"
  proof (intro ballI impI)
    fix p assume "p \<in> set (readerpos ?w)" and p: "0 < p"
    then obtain j where j: "j < length (readerpos ?w)" and e: "readerpos ?w ! j = p"
      by (auto simp: in_set_conv_nth)
    from j d(1) have "j < length (handles s)" by simp
    from d(5) [OF this] e p show "offset ?w \<le> p"
      by (cases "handles s ! j") (auto simp: reader_ok_def)
  qed
  from a b c show ?thesis by blast
qed

text \<open>An instance: two writes and two readers; the first reader has read, the second has not.\<close>

theorem base_bounds_witness:
  "run [EvWrite (VInt 1), EvReader, EvWrite (VInt 2), EvReader, EvRead None 0] (init (VInt 0)) =
     Some ([Done, Done, Done, Done, Got 0 (VInt 2) True],
       \<lparr>chan = \<lparr>zero_W = VInt 0, zerotype = TInt, closed = False, items = [VInt 2], offset = 1,
                 readerpos = [2, 0]\<rparr>,
          handles = [Some \<lparr>id_R = 0, pos = 2\<rparr>, Some \<lparr>id_R = 1, pos = 1\<rparr>],
          hist = [VInt 1, VInt 2]\<rparr>) \<and>
   offset \<lparr>zero_W = VInt 0, zerotype = TInt, closed = False, items = [VInt 2], offset = 1,
                 readerpos = [2, 0]\<rparr> \<le> streamlen \<lparr>zero_W = VInt 0, zerotype = TInt, closed = False, items = [VInt 2], offset = 1,
                 readerpos = [2, 0]\<rparr> \<and>
   offset \<lparr>zero_W = VInt 0, zerotype = TInt, closed = False, items = [VInt 2], offset = 1,
                 readerpos = [2, 0]\<rparr> \<le> pos \<lparr>id_R = 0, pos = 2\<rparr> \<and>
   offset \<lparr>zero_W = VInt 0, zerotype = TInt, closed = False, items = [VInt 2], offset = 1,
                 readerpos = [2, 0]\<rparr> \<le> pos \<lparr>id_R = 1, pos = 1\<rparr> \<and>
   offset \<lparr>zero_W = VInt 0, zerotype = TInt, closed = False, items = [VInt 2], offset = 1,
                 readerpos = [2, 0]\<rparr> \<le> 2"
proof -
  let ?s = "\<lparr>chan = \<lparr>zero_W = VInt 0, zerotype = TInt, closed = False, items = [VInt 2], offset = 1,
                 readerpos = [2, 0]\<rparr>,
          handles = [Some \<lparr>id_R = 0, pos = 2\<rparr>, Some \<lparr>id_R = 1, pos = 1\<rparr>],
          hist = [VInt 1, VInt 2]\<rparr>"
  have r: "run [EvWrite (VInt 1), EvReader, EvWrite (VInt 2), EvReader, EvRead None 0] (init (VInt 0)) = Some ([Done, Done, Done, Done, Got 0 (VInt 2) True], ?s)"
    by (simp add: eval_defs)
  have h: "handle ?s 0 = Some \<lparr>id_R = 0, pos = 2\<rparr>" "handle ?s 1 = Some \<lparr>id_R = 1, pos = 1\<rparr>"
    by (simp_all add: handle_def)
  have a: "\<lparr>id_R = 0, pos = 2\<rparr> \<in> set (active_readers ?s)" "\<lparr>id_R = 1, pos = 1\<rparr> \<in> set (active_readers ?s)"
    by (simp_all add: active_readers_def)
  have e: "(2::int) \<in> set (readerpos (chan ?s))" by simp
  from base_bounds [OF r] h a e
  have "offset (chan ?s) \<le> streamlen (chan ?s)"
    and "offset (chan ?s) \<le> pos \<lparr>id_R = 0, pos = 2\<rparr>"
    and "offset (chan ?s) \<le> pos \<lparr>id_R = 1, pos = 1\<rparr>"
    and "offset (chan ?s) \<le> 2"
    by fastforce+
  then show ?thesis using r by simp
qed

text \<open>
  C5 as stated fails: of two readers the first is disposed of while the second still
  holds the item back; a later \<open>NBRead\<close> or \<open>Read\<close> on the disposed reader returns
  the item with \<open>true\<close> and overwrites its entry \<open>-1\<close> of \<open>readerpos\<close> with 1, and a
  second \<open>Dispose\<close> returns normally.
\<close>

theorem use_after_Dispose_counterexample:
  "Reader (New (VInt 0)) =
     (\<lparr>id_R = 0, pos = 0\<rparr>,
      \<lparr>zero_W = VInt 0, zerotype = TInt, closed = False, items = [], offset = 0, readerpos = [0]\<rparr>) \<and>
   Reader \<lparr>zero_W = VInt 0, zerotype = TInt, closed = False, items = [], offset = 0, readerpos = [0]\<rparr> =
     (\<lparr>id_R = 1, pos = 0\<rparr>,
      \<lparr>zero_W = VInt 0, zerotype = TInt, closed = False, items = [], offset = 0, readerpos = [0, 0]\<rparr>) \<and>
   Write \<lparr>zero_W = VInt 0, zerotype = TInt, closed = False, items = [], offset = 0, readerpos = [0, 0]\<rparr>
       (VInt 7) =
     Inr \<lparr>zero_W = VInt 0, zerotype = TInt, closed = False, items = [VInt 7], offset = 0,
           readerpos = [0, 0]\<rparr> \<and>
   Dispose \<lparr>id_R = 0, pos = 0\<rparr>
       \<lparr>zero_W = VInt 0, zerotype = TInt, closed = False, items = [VInt 7], offset = 0,
          readerpos = [0, 0]\<rparr> =
     Inr \<lparr>zero_W = VInt 0, zerotype = TInt, closed = False, items = [VInt 7], offset = 0,
           readerpos = [- 1, 0]\<rparr> \<and>
   NBRead \<lparr>id_R = 0, pos = 0\<rparr>
       \<lparr>zero_W = VInt 0, zerotype = TInt, closed = False, items = [VInt 7], offset = 0,
          readerpos = [- 1, 0]\<rparr> =
     Inr ((VInt 7, True), \<lparr>id_R = 0, pos = 1\<rparr>,
          \<lparr>zero_W = VInt 0, zerotype = TInt, closed = False, items = [VInt 7], offset = 0,
             readerpos = [1, 0]\<rparr>) \<and>
   Read None \<lparr>id_R = 0, pos = 0\<rparr>
       \<lparr>zero_W = VInt 0, zerotype = TInt, closed = False, items = [VInt 7], offset = 0,
          readerpos = [- 1, 0]\<rparr> =
     Returns ((VInt 7, True), \<lparr>id_R = 0, pos = 1\<rparr>,
          \<lparr>zero_W = VInt 0, zerotype = TInt, closed = False, items = [VInt 7], offset = 0,
             readerpos = [1, 0]\<rparr>) \<and>
   Dispose \<lparr>id_R = 0, pos = 0\<rparr>
       \<lparr>zero_W = VInt 0, zerotype = TInt, closed = False, items = [VInt 7], offset = 0,
          readerpos = [- 1, 0]\<rparr> =
     Inr \<lparr>zero_W = VInt 0, zerotype = TInt, closed = False, items = [VInt 7], offset = 0,
           readerpos = [- 1, 0]\<rparr>"
  by (simp add: eval_defs)

text \<open>
  C5 (as amended).  \<open>Dispose\<close> stores \<open>-1\<close> in the reader's entry, and no method
  checks for it.  A second \<open>Dispose\<close> returns normally and leaves the channel as it
  is.  \<open>NBRead\<close> on the disposed reader returns the zero value and \<open>false\<close>, with
  the channel unchanged, when the reader's position is at or beyond the end of the
  stream; it panics with an index out of range when the position is below \<open>offset\<close>;
  otherwise it returns the item at the position with \<open>true\<close> and overwrites the
  reader's entry with the new position.  \<open>Read\<close> differs from \<open>NBRead\<close> only where
  it does for every reader: at the end of an open stream, and under a cancelled
  context.
\<close>

theorem use_after_Dispose:
  assumes "0 \<le> id_R r" "id_R r < int (length (readerpos w))" "Dispose r w = Inr w'"
  shows "readerpos w' ! nat (id_R r) = - 1 \<and>
    Dispose r w' = Inr w' \<and>
    NBRead r w' =
      (if pos r \<ge> streamlen w' then Inr ((zero_W w', False), r, w')
       else if pos r < offset w' then Inl IndexOutOfRange
       else Inr ((items w' ! nat (pos r - offset w'), True), r\<lparr>pos := pos r + 1\<rparr>,
                 trimmed (w'\<lparr>readerpos := (readerpos w')[nat (id_R r) := pos r + 1]\<rparr>))) \<and>
    readerpos (trimmed (w'\<lparr>readerpos := (readerpos w')[nat (id_R r) := pos r + 1]\<rparr>)) ! nat (id_R r)
      = pos r + 1 \<and>
    Read c r w' =
      (if pos r \<ge> streamlen w' \<and> \<not> closed w'
       then (case c of
               None \<Rightarrow> Panics NilDereference
             | Some b \<Rightarrow> if b then Returns ((zero_W w', False), r, w') else Blocks)
       else if c = Some True then Returns ((zero_W w', False), r, w')
       else (case NBRead r w' of Inl e \<Rightarrow> Panics e | Inr x \<Rightarrow> Returns x))"
proof -
  let ?w1 = "w\<lparr>readerpos := (readerpos w)[nat (id_R r) := - 1]\<rparr>"
  from assms have w': "w' = trimmed ?w1" by (simp add: Dispose_eq)
  from assms(1,2) have len: "nat (id_R r) < length (readerpos w)" by simp
  have e: "readerpos w' ! nat (id_R r) = - 1" using len by (simp add: w')
  have same: "(readerpos w')[nat (id_R r) := - 1] = readerpos w'"
    using e list_update_id [of "readerpos w'" "nat (id_R r)"] by simp
  have len': "id_R r < int (length (readerpos w'))" using assms(2) by (simp add: w')
  have "Dispose r w' = Inr (trimmed (w'\<lparr>readerpos := readerpos w'\<rparr>))"
    using Dispose_eq [OF assms(1) len'] same by simp
  then have d: "Dispose r w' = Inr w'" by (simp add: w' trimmed_idem)
  have n: "NBRead r w' =
      (if pos r \<ge> streamlen w' then Inr ((zero_W w', False), r, w')
       else if pos r < offset w' then Inl IndexOutOfRange
       else Inr ((items w' ! nat (pos r - offset w'), True), r\<lparr>pos := pos r + 1\<rparr>,
                 trimmed (w'\<lparr>readerpos := (readerpos w')[nat (id_R r) := pos r + 1]\<rparr>)))"
    using assms(1) len' doRead_eq [of w' r]
    by (auto simp: NBRead_def doRead_def item_def index_def)
  have u: "readerpos (trimmed (w'\<lparr>readerpos := (readerpos w')[nat (id_R r) := pos r + 1]\<rparr>)) ! nat (id_R r)
      = pos r + 1"
    using len by (simp add: w')
  from e d n u Read_NBRead [of c r w'] show ?thesis by blast
qed

text \<open>An instance: the only reader is disposed of, the item goes, and \<open>NBRead\<close> panics.\<close>

theorem use_after_Dispose_witness:
  "0 \<le> id_R \<lparr>id_R = 0, pos = 0\<rparr> \<and>
   id_R \<lparr>id_R = 0, pos = 0\<rparr> <
     int (length (readerpos \<lparr>zero_W = VInt 0, zerotype = TInt, closed = False, items = [VInt 7],
       offset = 0, readerpos = [0]\<rparr>)) \<and>
   Dispose \<lparr>id_R = 0, pos = 0\<rparr>
       \<lparr>zero_W = VInt 0, zerotype = TInt, closed = False, items = [VInt 7], offset = 0, readerpos = [0]\<rparr> =
     Inr \<lparr>zero_W = VInt 0, zerotype = TInt, closed = False, items = [], offset = 1, readerpos = [- 1]\<rparr> \<and>
   Dispose \<lparr>id_R = 0, pos = 0\<rparr>
       \<lparr>zero_W = VInt 0, zerotype = TInt, closed = False, items = [], offset = 1, readerpos = [- 1]\<rparr> =
     Inr \<lparr>zero_W = VInt 0, zerotype = TInt, closed = False, items = [], offset = 1, readerpos = [- 1]\<rparr> \<and>
   NBRead \<lparr>id_R = 0, pos = 0\<rparr>
       \<lparr>zero_W = VInt 0, zerotype = TInt, closed = False, items = [], offset = 1, readerpos = [- 1]\<rparr> =
     Inl IndexOutOfRange"
proof -
  let ?r = "\<lparr>id_R = 0, pos = 0\<rparr>"
  let ?w = "\<lparr>zero_W = VInt 0, zerotype = TInt, closed = False, items = [VInt 7], offset = 0,
             readerpos = [0]\<rparr>"
  let ?w' = "\<lparr>zero_W = VInt 0, zerotype = TInt, closed = False, items = [], offset = 1,
             readerpos = [- 1]\<rparr>"
  have a: "0 \<le> id_R ?r" and b: "id_R ?r < int (length (readerpos ?w))" by simp_all
  have d: "Dispose ?r ?w = Inr ?w'" by (simp add: eval_defs)
  from use_after_Dispose [OF a b d] a b d show ?thesis
    by (simp add: streamlen_def)
qed

text \<open>
  C6.  In every reachable state \<open>Reader\<close> returns a reader whose position is the
  channel's \<open>offset\<close>, the position of the oldest item still buffered, not the end
  of the stream.  Over any further run the items handed to that reader are the
  items of the stream at the positions from that \<open>offset\<close> on, consecutively and in
  order: none of a lower position, none skipped, none twice.  While the reader is
  in use its position is that \<open>offset\<close> plus the number of items it was handed,
  and when an item stands at its position \<open>NBRead\<close> returns that item.
\<close>

theorem Reader_starts_at_offset:
  assumes "run es0 (init z) = Some (obs0, s0)" and "run (EvReader # es) s0 = Some (obs, s)"
  shows "fst (Reader (chan s0)) = \<lparr>id_R = int (length (handles s0)), pos = offset (chan s0)\<rparr> \<and>
    (\<exists>n. delivered (length (handles s0)) obs = take n (drop (nat (offset (chan s0))) (hist s)) \<and>
       (\<forall>r. handle s (length (handles s0)) = Some r \<longrightarrow>
          pos r = offset (chan s0) + int n \<and>
          (pos r < streamlen (chan s) \<longrightarrow>
             (\<exists>s'. step (EvNBRead (length (handles s0))) s = Some (Got (length (handles s0)) (hist s ! nat (pos r)) True, s')))))"
proof
  let ?i = "length (handles s0)"
  let ?r = "\<lparr>id_R = int ?i, pos = offset (chan s0)\<rparr>"
  let ?s1 = "s0\<lparr>chan := snd (Reader (chan s0)), handles := handles s0 @ [Some (fst (Reader (chan s0)))]\<rparr>"
  from assms(1) have i0: "inv s0" by (rule inv_reachable)
  then have w0: "wf s0" by (simp add: inv_wf)
  from wfD(1) [OF w0] show rd: "fst (Reader (chan s0)) = ?r" by (simp add: Reader_def)
  have st: "step EvReader s0 = Some (Done, ?s1)" by (simp split: prod.splits)
  with assms(2) obtain obs1 where rn: "run es ?s1 = Some (obs1, s)" and o: "obs = Done # obs1"
    by (auto split: option.splits prod.splits)
  have i1: "inv ?s1" using i0 by (rule inv_Reader)
  have h1: "handle ?s1 ?i = Some ?r" using rd by (simp add: handle_def)
  from i1 rn have i2: "inv s" by (rule inv_run)
  from delivered_run [OF i1 h1 rn] obtain n where
    n: "delivered ?i obs1 = take n (drop (nat (offset (chan s0))) (hist s))"
      "\<forall>r'. handle s ?i = Some r' \<longrightarrow> pos r' = offset (chan s0) + int n"
    by auto
  have d: "delivered ?i obs = delivered ?i obs1" by (simp add: o delivered_Cons)
  have "\<exists>s'. step (EvNBRead ?i) s = Some (Got ?i (hist s ! nat (pos r)) True, s')"
    if "handle s ?i = Some r" "pos r < streamlen (chan s)" for r
    using step_NBRead [OF i2 that(1)] that(2) by simp
  with n d show "\<exists>n. delivered ?i obs = take n (drop (nat (offset (chan s0))) (hist s)) \<and>
       (\<forall>r. handle s ?i = Some r \<longrightarrow>
          pos r = offset (chan s0) + int n \<and>
          (pos r < streamlen (chan s) \<longrightarrow>
             (\<exists>s'. step (EvNBRead ?i) s = Some (Got ?i (hist s ! nat (pos r)) True, s'))))"
    by (intro exI [of _ n]) auto
qed

text \<open>
  An instance: \<open>Write(1)\<close> without readers, a first reader, \<open>Write(2)\<close>, then the
  second reader: it is handed 2, written before it was added, and then 3.
\<close>

theorem Reader_starts_at_offset_witness:
  "run [EvWrite (VInt 1), EvReader, EvWrite (VInt 2)] (init (VInt 0)) =
     Some ([Done, Done, Done], \<lparr>chan = \<lparr>zero_W = VInt 0, zerotype = TInt, closed = False, items = [VInt 2], offset = 1,
                   readerpos = [0]\<rparr>,
            handles = [Some \<lparr>id_R = 0, pos = 1\<rparr>], hist = [VInt 1, VInt 2]\<rparr>) \<and>
   run [EvReader, EvRead None 0, EvNBRead 1, EvWrite (VInt 3)] \<lparr>chan = \<lparr>zero_W = VInt 0, zerotype = TInt, closed = False, items = [VInt 2], offset = 1,
                   readerpos = [0]\<rparr>,
            handles = [Some \<lparr>id_R = 0, pos = 1\<rparr>], hist = [VInt 1, VInt 2]\<rparr> =
     Some ([Done, Got 0 (VInt 2) True, Got 1 (VInt 2) True, Done], \<lparr>chan = \<lparr>zero_W = VInt 0, zerotype = TInt, closed = False, items = [VInt 3], offset = 2,
                   readerpos = [2, 2]\<rparr>,
            handles = [Some \<lparr>id_R = 0, pos = 2\<rparr>, Some \<lparr>id_R = 1, pos = 2\<rparr>],
            hist = [VInt 1, VInt 2, VInt 3]\<rparr>) \<and>
   fst (Reader (chan \<lparr>chan = \<lparr>zero_W = VInt 0, zerotype = TInt, closed = False, items = [VInt 2], offset = 1,
                   readerpos = [0]\<rparr>,
            handles = [Some \<lparr>id_R = 0, pos = 1\<rparr>], hist = [VInt 1, VInt 2]\<rparr>)) = \<lparr>id_R = 1, pos = 1\<rparr> \<and>
   delivered 1 [Done, Got 0 (VInt 2) True, Got 1 (VInt 2) True, Done] = [VInt 2] \<and>
   handle \<lparr>chan = \<lparr>zero_W = VInt 0, zerotype = TInt, closed = False, items = [VInt 3], offset = 2,
                   readerpos = [2, 2]\<rparr>,
            handles = [Some \<lparr>id_R = 0, pos = 2\<rparr>, Some \<lparr>id_R = 1, pos = 2\<rparr>],
            hist = [VInt 1, VInt 2, VInt 3]\<rparr> 1 = Some \<lparr>id_R = 1, pos = 2\<rparr> \<and>
   step (EvNBRead 1) \<lparr>chan = \<lparr>zero_W = VInt 0, zerotype = TInt, closed = False, items = [VInt 3], offset = 2,
                   readerpos = [2, 2]\<rparr>,
            handles = [Some \<lparr>id_R = 0, pos = 2\<rparr>, Some \<lparr>id_R = 1, pos = 2\<rparr>],
            hist = [VInt 1, VInt 2, VInt 3]\<rparr> = Some (Got 1 (VInt 3) True, \<lparr>chan = \<lparr>zero_W = VInt 0, zerotype = TInt, closed = False, items = [VInt 3], offset = 2,
                   readerpos = [2, 3]\<rparr>,
            handles = [Some \<lparr>id_R = 0, pos = 2\<rparr>, Some \<lparr>id_R = 1, pos = 3\<rparr>],
            hist = [VInt 1, VInt 2, VInt 3]\<rparr>)"
proof -
  let ?a = "\<lparr>chan = \<lparr>zero_W = VInt 0, zerotype = TInt, closed = False, items = [VInt 2], offset = 1,
                   readerpos = [0]\<rparr>,
            handles = [Some \<lparr>id_R = 0, pos = 1\<rparr>], hist = [VInt 1, VInt 2]\<rparr>"
  let ?s = "\<lparr>chan = \<lparr>zero_W = VInt 0, zerotype = TInt, closed = False, items = [VInt 3], offset = 2,
                   readerpos = [2, 2]\<rparr>,
            handles = [Some \<lparr>id_R = 0, pos = 2\<rparr>, Some \<lparr>id_R = 1, pos = 2\<rparr>],
            hist = [VInt 1, VInt 2, VInt 3]\<rparr>"
  have r1: "run [EvWrite (VInt 1), EvReader, EvWrite (VInt 2)] (init (VInt 0)) =
     Some ([Done, Done, Done], ?a)"
    by (simp add: eval_defs)
  have r2: "run (EvReader # [EvRead None 0, EvNBRead 1, EvWrite (VInt 3)]) ?a =
     Some ([Done, Got 0 (VInt 2) True, Got 1 (VInt 2) True, Done], ?s)"
    by (simp add: eval_defs)
  from Reader_starts_at_offset [OF r1 r2]
  have a: "fst (Reader (chan ?a)) = \<lparr>id_R = 1, pos = 1\<rparr>" by simp
  have b: "delivered 1 [Done, Got 0 (VInt 2) True, Got 1 (VInt 2) True, Done] = [VInt 2]"
    by (simp add: delivered_def)
  have c: "handle ?s 1 = Some \<lparr>id_R = 1, pos = 2\<rparr>" by (simp add: handle_def)
  have d: "step (EvNBRead 1) ?s = Some (Got 1 (VInt 3) True, \<lparr>chan = \<lparr>zero_W = VInt 0, zerotype = TInt, closed = False, items = [VInt 3], offset = 2,
                   readerpos = [2, 3]\<rparr>,
            handles = [Some \<lparr>id_R = 0, pos = 2\<rparr>, Some \<lparr>id_R = 1, pos = 3\<rparr>],
            hist = [VInt 1, VInt 2, VInt 3]\<rparr>)"
    by (simp add: eval_defs)
  from r1 r2 a b c d show ?thesis by simp
qed




text \<open>
  C8.  In a reachable state where nothing is buffered, any number of calls of
  \<open>NBRead\<close> by a reader return the zero value with \<open>false\<close>; \<open>NBRead\<close> has no
  outcome that waits.  After one \<open>Write\<close> of an item of the channel's type the
  next \<open>NBRead\<close> returns that item with \<open>true\<close>, and every further one the zero
  value with \<open>false\<close>.  Whether the channel is closed plays no part.
\<close>

theorem NBRead_correct:
  assumes "run es0 (init z) = Some (obs0, s)" and "handle s i = Some r"
    and "items (chan s) = []" and "TypeOf v = TypeOf z"
  shows "\<exists>s'. run (replicate j (EvNBRead i) @ EvWrite v # replicate (Suc k) (EvNBRead i)) s =
       Some (replicate j (Got i z False) @ Done # Got i v True # replicate k (Got i z False), s')"
proof -
  from assms(1) have i: "inv s" by (rule inv_reachable)
  note st = static_reachable [OF assms(1)]
  note h = inv_handle [OF i assms(2)]
  from i have w: "wf s" by (simp add: inv_wf)
  note d = wfD [OF w]
  from assms(3) have sl: "streamlen (chan s) = offset (chan s)" by (simp add: streamlen_def)
  with h(3,4) have p: "pos r = streamlen (chan s)" by simp
  \<comment> \<open>the reads before the write\<close>
  have r1: "run (replicate j (EvNBRead i)) s = Some (replicate j (Got i z False), s)"
    using NBRead_idle [OF i assms(2), of j] p st(1) by simp
  \<comment> \<open>the write\<close>
  let ?s1 = "s\<lparr>chan := trimmed ((chan s)\<lparr>items := items (chan s) @ [v]\<rparr>), hist := hist s @ [v]\<rparr>"
  from assms(4) st(2) have ty: "TypeOf v = zerotype (chan s)" by simp
  then have w1: "step (EvWrite v) s = Some (Done, ?s1)" by (simp add: Write_eq)
  have i1: "inv ?s1" using i ty by (rule inv_Write)
  have h1: "handle ?s1 i = Some r" using handle_SomeD [OF assms(2)] by (simp add: handle_def)
  have sl1: "streamlen (chan ?s1) = streamlen (chan s) + 1" by simp
  \<comment> \<open>the read that takes the item\<close>
  from p d(3) have pn: "nat (pos r) = length (hist s)" by simp
  have lt: "pos r < streamlen (chan ?s1)" using p sl1 by simp
  from step_NBRead [OF i1 h1] lt pn
  have n1: "step (EvNBRead i) ?s1 = Some (Got i v True, advance i r ?s1)" by simp
  let ?s2 = "advance i r ?s1"
  have i2: "inv ?s2" using i1 h1 lt by (rule inv_advance')
  have h2: "handle ?s2 i = Some (r\<lparr>pos := pos r + 1\<rparr>)" using h1 by (simp add: handle_advance)
  have e2: "pos (r\<lparr>pos := pos r + 1\<rparr>) \<ge> streamlen (chan ?s2)" using p by simp
  \<comment> \<open>the reads after it\<close>
  have r2: "run (replicate k (EvNBRead i)) ?s2 = Some (replicate k (Got i z False), ?s2)"
    using NBRead_idle [OF i2 h2 e2, of k] st(1) by simp
  from r1 w1 n1 r2 show ?thesis
    by (simp add: run_append)
qed

text \<open>An instance: a new channel with one reader; two reads, \<open>Write(5)\<close>, three reads.\<close>

theorem NBRead_correct_witness:
  "run [EvReader] (init (VInt 0)) =
     Some ([Done], \<lparr>chan = \<lparr>zero_W = VInt 0, zerotype = TInt, closed = False, items = [], offset = 0,
                    readerpos = [0]\<rparr>,
             handles = [Some \<lparr>id_R = 0, pos = 0\<rparr>], hist = []\<rparr>) \<and>
   handle \<lparr>chan = \<lparr>zero_W = VInt 0, zerotype = TInt, closed = False, items = [], offset = 0,
                    readerpos = [0]\<rparr>,
             handles = [Some \<lparr>id_R = 0, pos = 0\<rparr>], hist = []\<rparr> 0 = Some \<lparr>id_R = 0, pos = 0\<rparr> \<and>
   items (chan \<lparr>chan = \<lparr>zero_W = VInt 0, zerotype = TInt, closed = False, items = [], offset = 0,
                    readerpos = [0]\<rparr>,
             handles = [Some \<lparr>id_R = 0, pos = 0\<rparr>], hist = []\<rparr>) = [] \<and>
   TypeOf (VInt 5) = TypeOf (VInt 0) \<and>
   run [EvNBRead 0, EvNBRead 0, EvWrite (VInt 5), EvNBRead 0, EvNBRead 0, EvNBRead 0]
       \<lparr>chan = \<lparr>zero_W = VInt 0, zerotype = TInt, closed = False, items = [], offset = 0,
                    readerpos = [0]\<rparr>,
             handles = [Some \<lparr>id_R = 0, pos = 0\<rparr>], hist = []\<rparr> =
     Some ([Got 0 (VInt 0) False, Got 0 (VInt 0) False, Done, Got 0 (VInt 5) True,
            Got 0 (VInt 0) False, Got 0 (VInt 0) False],
           \<lparr>chan = \<lparr>zero_W = VInt 0, zerotype = TInt, closed = False, items = [], offset = 1,
                    readerpos = [1]\<rparr>,
             handles = [Some \<lparr>id_R = 0, pos = 1\<rparr>], hist = [VInt 5]\<rparr>)"
proof -
  let ?s = "\<lparr>chan = \<lparr>zero_W = VInt 0, zerotype = TInt, closed = False, items = [], offset = 0,
                    readerpos = [0]\<rparr>,
             handles = [Some \<lparr>id_R = 0, pos = 0\<rparr>], hist = []\<rparr>"
  have r: "run [EvReader] (init (VInt 0)) = Some ([Done], ?s)"
    by (simp add: eval_defs)
  have h: "handle ?s 0 = Some \<lparr>id_R = 0, pos = 0\<rparr>" by (simp add: handle_def)
  have e: "items (chan ?s) = []" by simp
  have t: "TypeOf (VInt 5) = TypeOf (VInt 0)" by simp
  have f: "run [EvNBRead 0, EvNBRead 0, EvWrite (VInt 5), EvNBRead 0, EvNBRead 0, EvNBRead 0] ?s =
     Some ([Got 0 (VInt 0) False, Got 0 (VInt 0) False, Done, Got 0 (VInt 5) True,
            Got 0 (VInt 0) False, Got 0 (VInt 0) False],
           \<lparr>chan = \<lparr>zero_W = VInt 0, zerotype = TInt, closed = False, items = [], offset = 1,
                    readerpos = [1]\<rparr>,
             handles = [Some \<lparr>id_R = 0, pos = 1\<rparr>], hist = [VInt 5]\<rparr>)"
    by (simp add: eval_defs)
  from NBRead_correct [OF r h e t, of 2 2] r h e t f show ?thesis
    by simp
qed

text \<open>
  C9.  In every reachable state the number of retained items is at most the end of
  the stream minus the minimum cursor of the active consumers (the end of the stream
  itself when there is none, so that nothing is retained then), and an item at a
  position that every active consumer has passed is not retained.  Both hold for
  the cursors read as the entries of \<open>readerpos\<close> and read as the readers' own
  positions.  Every method ends with its call of \<open>trim\<close>, so the states after the
  compaction are the reachable states.
\<close>

theorem compaction:
  assumes "run es (init z) = Some (obs, s)"
  shows "int (length (items (chan s))) \<le> streamlen (chan s) - min_cursor (chan s) \<and>
         int (length (items (chan s))) \<le> streamlen (chan s) - min_position s \<and>
         (\<forall>p. (\<forall>e \<in> set (active_entries (chan s)). p < e) \<longrightarrow> \<not> retained (chan s) p) \<and>
         (\<forall>p. (\<forall>r \<in> set (active_readers s). p < pos r) \<longrightarrow> \<not> retained (chan s) p)"
proof -
  from assms have i: "inv s" by (rule inv_reachable)
  then have t: "trim_min (readerpos (chan s)) (streamlen (chan s)) \<le> offset (chan s)"
    by (simp add: inv_wf)
  have a: "int (length (items (chan s))) \<le> streamlen (chan s) - min_cursor (chan s)"
    using min_cursor_le [OF i] by (simp add: streamlen_def)
  have b: "int (length (items (chan s))) \<le> streamlen (chan s) - min_position s"
    using min_position_le [OF i] by (simp add: streamlen_def)
  have c: "\<forall>p. (\<forall>e \<in> set (active_entries (chan s)). p < e) \<longrightarrow> \<not> retained (chan s) p"
    using tight_entry [OF t] by (fastforce simp: retained_def)
  have d: "\<forall>p. (\<forall>r \<in> set (active_readers s). p < pos r) \<longrightarrow> \<not> retained (chan s) p"
    using tight_reader [OF i] by (fastforce simp: retained_def)
  from a b c d show ?thesis by blast
qed

text \<open>An instance: two writes and two readers; position 0 is passed by both and not retained.\<close>

theorem compaction_witness:
  "run [EvWrite (VInt 1), EvReader, EvWrite (VInt 2), EvReader, EvRead None 0] (init (VInt 0)) =
     Some ([Done, Done, Done, Done, Got 0 (VInt 2) True],
       \<lparr>chan = \<lparr>zero_W = VInt 0, zerotype = TInt, closed = False, items = [VInt 2], offset = 1,
                 readerpos = [2, 0]\<rparr>,
          handles = [Some \<lparr>id_R = 0, pos = 2\<rparr>, Some \<lparr>id_R = 1, pos = 1\<rparr>],
          hist = [VInt 1, VInt 2]\<rparr>) \<and>
   int (length (items \<lparr>zero_W = VInt 0, zerotype = TInt, closed = False, items = [VInt 2], offset = 1,
                 readerpos = [2, 0]\<rparr>)) \<le> streamlen \<lparr>zero_W = VInt 0, zerotype = TInt, closed = False, items = [VInt 2], offset = 1,
                 readerpos = [2, 0]\<rparr> - min_cursor \<lparr>zero_W = VInt 0, zerotype = TInt, closed = False, items = [VInt 2], offset = 1,
                 readerpos = [2, 0]\<rparr> \<and>
   int (length (items \<lparr>zero_W = VInt 0, zerotype = TInt, closed = False, items = [VInt 2], offset = 1,
                 readerpos = [2, 0]\<rparr>)) \<le> streamlen \<lparr>zero_W = VInt 0, zerotype = TInt, closed = False, items = [VInt 2], offset = 1,
                 readerpos = [2, 0]\<rparr> - min_position \<lparr>chan = \<lparr>zero_W = VInt 0, zerotype = TInt, closed = False, items = [VInt 2], offset = 1,
                 readerpos = [2, 0]\<rparr>,
          handles = [Some \<lparr>id_R = 0, pos = 2\<rparr>, Some \<lparr>id_R = 1, pos = 1\<rparr>],
          hist = [VInt 1, VInt 2]\<rparr> \<and>
   min_cursor \<lparr>zero_W = VInt 0, zerotype = TInt, closed = False, items = [VInt 2], offset = 1,
                 readerpos = [2, 0]\<rparr> = 0 \<and> min_position \<lparr>chan = \<lparr>zero_W = VInt 0, zerotype = TInt, closed = False, items = [VInt 2], offset = 1,
                 readerpos = [2, 0]\<rparr>,
          handles = [Some \<lparr>id_R = 0, pos = 2\<rparr>, Some \<lparr>id_R = 1, pos = 1\<rparr>],
          hist = [VInt 1, VInt 2]\<rparr> = 1 \<and>
   \<not> retained \<lparr>zero_W = VInt 0, zerotype = TInt, closed = False, items = [VInt 2], offset = 1,
                 readerpos = [2, 0]\<rparr> 0"
proof -
  let ?s = "\<lparr>chan = \<lparr>zero_W = VInt 0, zerotype = TInt, closed = False, items = [VInt 2], offset = 1,
                 readerpos = [2, 0]\<rparr>,
          handles = [Some \<lparr>id_R = 0, pos = 2\<rparr>, Some \<lparr>id_R = 1, pos = 1\<rparr>],
          hist = [VInt 1, VInt 2]\<rparr>"
  have r: "run [EvWrite (VInt 1), EvReader, EvWrite (VInt 2), EvReader, EvRead None 0] (init (VInt 0)) = Some ([Done, Done, Done, Done, Got 0 (VInt 2) True], ?s)"
    by (simp add: eval_defs)
  have p: "\<forall>r \<in> set (active_readers ?s). 0 < pos r"
    by (simp add: active_readers_def)
  from compaction [OF r] p have "\<not> retained (chan ?s) 0"
    and "int (length (items (chan ?s))) \<le> streamlen (chan ?s) - min_cursor (chan ?s)"
    and "int (length (items (chan ?s))) \<le> streamlen (chan ?s) - min_position ?s"
    by blast+
  moreover have "min_cursor (chan ?s) = 0" "min_position ?s = 1"
    by (simp_all add: min_cursor_def active_entries_def min_position_def active_readers_def)
  ultimately show ?thesis using r by simp
qed

text \<open>
  C10.  An attempt of \<open>Read\<close> that finds its context cancelled, whether this is the
  first attempt of the call or one made after waiting, returns the zero value and
  \<open>false\<close>, and returns the reader and the channel as they were: the position of
  the reader, its entry of \<open>readerpos\<close>, \<open>items\<close>, \<open>offset\<close> and \<open>closed\<close> are
  unchanged, also when an item stands at the reader's position.
\<close>

theorem Read_cancelled: "Read (Some True) r w = Returns ((zero_W w, False), r, w)"
  by (simp add: Read_def loop_cond_def Err_def)

end
